theory Spec2Isabelle
  imports Main "HOL-Library.AList" "HOL-Library.Sublist"
begin

section \<open>The linked list\<close>

text \<open>
  The class \<open>Node<T>\<close> holds the data and the pointer to the next node, which is \<open>null\<close> at
  the end of the chain. The method \<open>toString\<close> of an item is a parameter \<open>str\<close> of the
  functions that print.
\<close>

datatype 'a Node = Node (data: 'a) (next_node: "'a Node option")

definition Node_toString :: "('a \<Rightarrow> string) \<Rightarrow> 'a Node \<Rightarrow> string" where
  "Node_toString str n = str (data n)"

record 'a LinkedList =
  head :: "'a Node option"
  count :: int

definition LinkedList_new :: "'a LinkedList" where
  "LinkedList_new = \<lparr>head = None, count = 0\<rparr>"

definition ll_insert :: "'a \<Rightarrow> 'a LinkedList \<Rightarrow> 'a LinkedList" where
  "ll_insert element l =
     (case head l of
        None \<Rightarrow> l\<lparr>head := Some (Node element None), count := count l + 1\<rparr>
      | Some temp \<Rightarrow> l\<lparr>head := Some (Node element (Some temp)), count := count l + 1\<rparr>)"

definition ll_first :: "'a LinkedList \<Rightarrow> 'a option" where
  "ll_first l = (case head l of Some n \<Rightarrow> Some (data n) | None \<Rightarrow> None)"

text \<open>\<open>remove\<close> returns the boolean and the list as it is after the call.\<close>

definition ll_remove :: "'a LinkedList \<Rightarrow> bool \<times> 'a LinkedList" where
  "ll_remove l =
     (case head l of
        Some n \<Rightarrow> (True, l\<lparr>head := next_node n, count := count l - 1\<rparr>)
      | None \<Rightarrow> (False, l))"

definition ll_size :: "'a LinkedList \<Rightarrow> int" where
  "ll_size l = count l"

text \<open>
  \<open>String.prototype.substr(start, length)\<close>: a negative start counts from the end, the
  length is cut to what the string has, and a length that is not positive gives the empty
  string.
\<close>

definition substr :: "string \<Rightarrow> int \<Rightarrow> int \<Rightarrow> string" where
  "substr s start len =
     (let size = int (length s);
          b = (if start < 0 then max (size + start) 0 else min start size);
          n = min (max len 0) (size - b)
      in if n \<le> 0 then [] else take (nat n) (drop (nat b) s))"

text \<open>The \<open>while\<close> loop of \<open>toString\<close>, from the node \<open>current\<close> with the string built so far.\<close>

fun toString_loop :: "('a \<Rightarrow> string) \<Rightarrow> 'a Node option \<Rightarrow> string \<Rightarrow> string" where
  "toString_loop str None s = s"
| "toString_loop str (Some (Node d n)) s =
     toString_loop str n (s @ Node_toString str (Node d n) @ '' '')"

definition ll_toString :: "('a \<Rightarrow> string) \<Rightarrow> 'a LinkedList \<Rightarrow> string" where
  "ll_toString str l =
     (let s = toString_loop str (head l) [] in substr s 0 (int (length s) - 1))"

text \<open>
  The iterator keeps the node \<open>current\<close>; \<open>next()\<close> returns \<open>done\<close> at the end of the chain and
  the data of the node otherwise, and moves on. \<open>iterate\<close> is what a \<open>for ... of\<close> loop or
  \<open>Array.from\<close> reads from a fresh iterator.
\<close>

datatype 'a IteratorResult = Done | Value 'a

definition iterator_next :: "'a Node option \<Rightarrow> 'a IteratorResult \<times> 'a Node option" where
  "iterator_next current =
     (case current of
        None \<Rightarrow> (Done, None)
      | Some n \<Rightarrow> (Value (data n), next_node n))"

function drain :: "'a Node option \<Rightarrow> 'a list" where
  "drain current =
     (case iterator_next current of
        (Done, _) \<Rightarrow> []
      | (Value v, current') \<Rightarrow> v # drain current')"
  by pat_completeness auto
termination
proof (relation "measure (size_option size)", goal_cases)
  case 1
  show ?case by simp
next
  case (2 current r current' v)
  then show ?case
    by (cases current; cases "the current")
       (auto simp: iterator_next_def)
qed

definition iterate :: "'a LinkedList \<Rightarrow> 'a list" where
  "iterate l = drain (head l)"


section \<open>The dependency graph\<close>

text \<open>
  \<open>relationships\<close> is a \<open>Map<T, Set<T>>\<close>. A JavaScript \<open>Map\<close> and a \<open>Set\<close> iterate in
  insertion order, and the order is what \<open>getNodes\<close>, the traversals and \<open>toString\<close> show,
  so the map is an association list (a new key goes to the end, a known key keeps its
  place) and a set is the list of its elements in insertion order. The map and the sets
  compare items with SameValueZero, which is the equality of HOL on the items. The
  operator \<open>==\<close>, which the cycle check uses, is another relation: it is a parameter \<open>eq\<close>
  of the functions that call the check. On strings \<open>==\<close> is equality; on numbers it is
  equality but for \<open>NaN\<close>, which is equal to nothing, itself included.
\<close>

record 'a DependencyGraph =
  relationships :: "('a \<times> 'a list) list"
  priv_size :: int

datatype error = CircularDependency | TypeError

text \<open>
  Numbers as items: \<open>NaN\<close> and the integers. As keys \<open>NaN\<close> is one item (SameValueZero), and
  \<open>NaN == NaN\<close> is false.
\<close>

datatype number = NaN | Finite int

fun number_eq :: "number \<Rightarrow> number \<Rightarrow> bool" where
  "number_eq (Finite a) (Finite b) = (a = b)"
| "number_eq _ _ = False"

definition DependencyGraph_new :: "'a DependencyGraph" where
  "DependencyGraph_new = \<lparr>relationships = [], priv_size = 0\<rparr>"

text \<open>\<open>Set.prototype.add\<close>: a new element goes to the end, a known one stays.\<close>

definition set_add :: "'a list \<Rightarrow> 'a \<Rightarrow> 'a list" where
  "set_add s x = (if x \<in> set s then s else s @ [x])"

definition contains :: "'a DependencyGraph \<Rightarrow> 'a \<Rightarrow> bool" where
  "contains g node = (node \<in> fst ` set (relationships g))"

definition add :: "'a DependencyGraph \<Rightarrow> 'a \<Rightarrow> 'a DependencyGraph" where
  "add g node =
     (if \<not> contains g node
      then g\<lparr>relationships := AList.update node [] (relationships g),
             priv_size := priv_size g + 1\<rparr>
      else g)"

definition remove :: "'a DependencyGraph \<Rightarrow> 'a \<Rightarrow> 'a DependencyGraph" where
  "remove g node =
     (if node \<in> fst ` set (relationships g)
      then g\<lparr>relationships := AList.delete node (relationships g),
             priv_size := priv_size g - 1\<rparr>
      else g)"

definition dg_size :: "'a DependencyGraph \<Rightarrow> int" where
  "dg_size g = priv_size g"

text \<open>
  \<open>getAdjacentNodes\<close> returns what \<open>Map.prototype.get\<close> returns: the set of the node, or
  \<open>undefined\<close> (here \<open>None\<close>) for a node that is not a key.
\<close>

definition getAdjacentNodes :: "'a DependencyGraph \<Rightarrow> 'a \<Rightarrow> 'a list option" where
  "getAdjacentNodes g node = map_of (relationships g) node"

definition hasDependents :: "'a DependencyGraph \<Rightarrow> 'a \<Rightarrow> bool" where
  "hasDependents g node =
     (contains g node \<and>
      (case map_of (relationships g) node of Some s \<Rightarrow> int (length s) \<noteq> 0 | None \<Rightarrow> False))"

text \<open>
  \<open>getDependents(node, true)\<close>, the call that the traversals make: the items that the
  returned iterable yields. It is defined ahead of \<open>getDependents\<close>, whose other branch
  calls \<open>getTopologicalDependents\<close>.
\<close>

definition getDependents_shallow :: "'a DependencyGraph \<Rightarrow> 'a \<Rightarrow> 'a list" where
  "getDependents_shallow g node =
     (if \<not> node \<in> fst ` set (relationships g) then []
      else (case map_of (relationships g) node of Some s \<Rightarrow> s | None \<Rightarrow> []))"

definition getNodes :: "'a DependencyGraph \<Rightarrow> 'a list" where
  "getNodes g = map fst (relationships g)"

text \<open>
  \<open>traverse(current, node, visited)\<close> mutates the set \<open>visited\<close> and throws when it meets
  \<open>node\<close>: the result is the error, or the set as the call leaves it. \<open>traverse_loop\<close> is
  the \<open>for\<close> loop over the dependents that are still to come. The test \<open>d == node\<close> is
  the loose equality of JavaScript, not the test of the map and of the sets: it is the
  parameter \<open>eq\<close>.
\<close>

function traverse :: "('a \<Rightarrow> 'a \<Rightarrow> bool) \<Rightarrow> 'a DependencyGraph \<Rightarrow> 'a \<Rightarrow> 'a \<Rightarrow> 'a set \<Rightarrow> error + 'a set"
  and traverse_loop :: "('a \<Rightarrow> 'a \<Rightarrow> bool) \<Rightarrow> 'a DependencyGraph \<Rightarrow> 'a list \<Rightarrow> 'a \<Rightarrow> 'a set \<Rightarrow> error + 'a set"
where
  "traverse eq g current node visited =
     traverse_loop eq g (getDependents_shallow g current) node (insert current visited)"
| "traverse_loop eq g [] node visited = Inr visited"
| "traverse_loop eq g (d # ds) node visited =
     (if eq d node then Inl CircularDependency
      else if d \<notin> visited
        then (case traverse eq g d node visited of
                Inl e \<Rightarrow> Inl e
              | Inr visited' \<Rightarrow> traverse_loop eq g ds node visited')
        else traverse_loop eq g ds node visited)"
  by pat_completeness auto

text \<open>
  Every call returns: a recursive call either marks a key of the map that was not marked,
  or has fewer dependents left to read. The set that a call returns holds the one it got.
\<close>

lemma traverse_total: "All traverse_traverse_loop_dom"
proof -
  let ?keys = "\<lambda>g::'a DependencyGraph. fst ` set (relationships g)"
  let ?m1 = "\<lambda>x::(('a \<Rightarrow> 'a \<Rightarrow> bool) \<times> 'a DependencyGraph \<times> 'a \<times> 'a \<times> 'a set)
                 + (('a \<Rightarrow> 'a \<Rightarrow> bool) \<times> 'a DependencyGraph \<times> 'a list \<times> 'a \<times> 'a set). case x of
               Inl (eq, g, current, node, visited) \<Rightarrow> card (?keys g - insert current visited)
             | Inr (eq, g, ds, node, visited) \<Rightarrow> card (?keys g - visited)"
  let ?m2 = "\<lambda>x::(('a \<Rightarrow> 'a \<Rightarrow> bool) \<times> 'a DependencyGraph \<times> 'a \<times> 'a \<times> 'a set)
                 + (('a \<Rightarrow> 'a \<Rightarrow> bool) \<times> 'a DependencyGraph \<times> 'a list \<times> 'a \<times> 'a set). case x of
               Inl (eq, g, current, node, visited) \<Rightarrow> 1 + 2 * length (getDependents_shallow g current)
             | Inr (eq, g, ds, node, visited) \<Rightarrow> 2 * length ds"
  have grows:
    "(traverse_traverse_loop_dom (Inl (eq, g, current, node, visited)) \<longrightarrow>
        (\<forall>v'. traverse eq g current node visited = Inr v' \<longrightarrow> visited \<subseteq> v'))"
    "(traverse_traverse_loop_dom (Inr (eq, g, ds, node, visited)) \<longrightarrow>
        (\<forall>v'. traverse_loop eq g ds node visited = Inr v' \<longrightarrow> visited \<subseteq> v'))"
    for eq :: "'a \<Rightarrow> 'a \<Rightarrow> bool" and g :: "'a DependencyGraph" and current node visited ds
  proof -
    have a: "traverse_traverse_loop_dom (Inl (eq, g, current, node, visited)) \<Longrightarrow>
        (\<forall>v'. traverse eq g current node visited = Inr v' \<longrightarrow> visited \<subseteq> v')"
     and b: "traverse_traverse_loop_dom (Inr (eq, g, ds, node, visited)) \<Longrightarrow>
        (\<forall>v'. traverse_loop eq g ds node visited = Inr v' \<longrightarrow> visited \<subseteq> v')"
    proof (induct rule: traverse_traverse_loop.pinduct)
      case (1 eq g current node visited)
      then show ?case by (auto simp: traverse.psimps)
    next
      case (2 eq g node visited)
      then show ?case by (simp add: traverse_loop.psimps)
    next
      case (3 eq g d ds node visited)
      then show ?case
        by (fastforce simp: traverse_loop.psimps split: if_splits sum.splits)
    qed
    show "(traverse_traverse_loop_dom (Inl (eq, g, current, node, visited)) \<longrightarrow>
        (\<forall>v'. traverse eq g current node visited = Inr v' \<longrightarrow> visited \<subseteq> v'))" using a by blast
    show "(traverse_traverse_loop_dom (Inr (eq, g, ds, node, visited)) \<longrightarrow>
        (\<forall>v'. traverse_loop eq g ds node visited = Inr v' \<longrightarrow> visited \<subseteq> v'))" using b by blast
  qed
  have fin: "finite (?keys g)" for g :: "'a DependencyGraph" by simp
  show ?thesis
  proof (relation "measures [?m1, ?m2]", goal_cases)
    case 1
    show ?case by simp
  next
    case (2 eq g current node visited)
    show ?case by simp
  next
    case (3 eq g d ds node visited)
    show ?case
    proof (cases "d \<in> ?keys g")
      case True
      with 3 have "card (?keys g - insert d visited) < card (?keys g - visited)"
        by (intro psubset_card_mono) auto
      then show ?thesis by simp
    next
      case False
      then have "getDependents_shallow g d = []" by (simp add: getDependents_shallow_def)
      moreover from False have "?keys g - insert d visited = ?keys g - visited" by auto
      ultimately show ?thesis by simp
    qed
  next
    case (4 eq g d ds node visited v')
    then have "visited \<subseteq> v'" using grows(1) by metis
    then have "card (?keys g - v') \<le> card (?keys g - visited)"
      by (intro card_mono) auto
    then show ?case by auto
  next
    case (5 eq g d ds node visited)
    show ?case by simp
  qed
qed

termination traverse
  by (rule traverse_total)

definition addDependency ::
  "('a \<Rightarrow> 'a \<Rightarrow> bool) \<Rightarrow> 'a DependencyGraph \<Rightarrow> 'a \<Rightarrow> 'a
     \<Rightarrow> 'a DependencyGraph \<times> (error + unit)" where
  "addDependency eq g from to =
     (let g1 = add g from;
          g2 = add g1 to
      in case map_of (relationships g2) from of
           None \<Rightarrow> (g2, Inl TypeError)
         | Some s \<Rightarrow>
             (let g3 = g2\<lparr>relationships := AList.update from (set_add s to) (relationships g2)\<rparr>
              in case traverse eq g3 from from {} of
                   Inl e \<Rightarrow> (g3, Inl e)
                 | Inr visited \<Rightarrow> (g3, Inr ())))"

text \<open>
  \<open>getTopologicalDependents(node, visited, list)\<close> mutates the set and the list: the result
  is both as the call leaves them (the list is also what the method returns).
\<close>

function getTopologicalDependents ::
    "'a DependencyGraph \<Rightarrow> 'a \<Rightarrow> 'a set \<Rightarrow> 'a LinkedList \<Rightarrow> 'a set \<times> 'a LinkedList"
  and getTopologicalDependents_loop ::
    "'a DependencyGraph \<Rightarrow> 'a list \<Rightarrow> 'a set \<Rightarrow> 'a LinkedList \<Rightarrow> 'a set \<times> 'a LinkedList"
where
  "getTopologicalDependents g node visited list =
     (case getTopologicalDependents_loop g (getDependents_shallow g node) (insert node visited) list of
        (visited', list') \<Rightarrow> (visited', ll_insert node list'))"
| "getTopologicalDependents_loop g [] visited list = (visited, list)"
| "getTopologicalDependents_loop g (d # ds) visited list =
     (if d \<notin> visited
      then (case getTopologicalDependents g d visited list of
              (visited', list') \<Rightarrow> getTopologicalDependents_loop g ds visited' list')
      else getTopologicalDependents_loop g ds visited list)"
  by pat_completeness auto

lemma getTopologicalDependents_total:
  "All getTopologicalDependents_getTopologicalDependents_loop_dom"
proof -
  let ?keys = "\<lambda>g::'a DependencyGraph. fst ` set (relationships g)"
  let ?m1 = "\<lambda>x::('a DependencyGraph \<times> 'a \<times> 'a set \<times> 'a LinkedList) + ('a DependencyGraph \<times> 'a list \<times> 'a set \<times> 'a LinkedList). case x of
               Inl (g, node, visited, l) \<Rightarrow> card (?keys g - insert node visited)
             | Inr (g, ds, visited, l) \<Rightarrow> card (?keys g - visited)"
  let ?m2 = "\<lambda>x::('a DependencyGraph \<times> 'a \<times> 'a set \<times> 'a LinkedList) + ('a DependencyGraph \<times> 'a list \<times> 'a set \<times> 'a LinkedList). case x of
               Inl (g, node, visited, l) \<Rightarrow> 1 + 2 * length (getDependents_shallow g node)
             | Inr (g, ds, visited, l) \<Rightarrow> 2 * length ds"
  have grows:
    "getTopologicalDependents_getTopologicalDependents_loop_dom (Inl (g, node, visited, l)) \<longrightarrow>
        visited \<subseteq> fst (getTopologicalDependents g node visited l)"
    "getTopologicalDependents_getTopologicalDependents_loop_dom (Inr (g, ds, visited, l)) \<longrightarrow>
        visited \<subseteq> fst (getTopologicalDependents_loop g ds visited l)"
    for g :: "'a DependencyGraph" and node visited ds l
  proof -
    have a: "getTopologicalDependents_getTopologicalDependents_loop_dom (Inl (g, node, visited, l)) \<Longrightarrow>
        visited \<subseteq> fst (getTopologicalDependents g node visited l)"
     and b: "getTopologicalDependents_getTopologicalDependents_loop_dom (Inr (g, ds, visited, l)) \<Longrightarrow>
        visited \<subseteq> fst (getTopologicalDependents_loop g ds visited l)"
    proof (induct rule: getTopologicalDependents_getTopologicalDependents_loop.pinduct)
      case (1 g node visited l)
      then show ?case
        by (auto simp: getTopologicalDependents.psimps split: prod.splits)
    next
      case (2 g visited l)
      then show ?case by (simp add: getTopologicalDependents_loop.psimps)
    next
      case (3 g d ds visited l)
      then show ?case
        by (fastforce simp: getTopologicalDependents_loop.psimps split: if_splits prod.splits)
    qed
    show "getTopologicalDependents_getTopologicalDependents_loop_dom (Inl (g, node, visited, l)) \<longrightarrow>
        visited \<subseteq> fst (getTopologicalDependents g node visited l)" using a by blast
    show "getTopologicalDependents_getTopologicalDependents_loop_dom (Inr (g, ds, visited, l)) \<longrightarrow>
        visited \<subseteq> fst (getTopologicalDependents_loop g ds visited l)" using b by blast
  qed
  show ?thesis
  proof (relation "measures [?m1, ?m2]", goal_cases)
    case 1
    show ?case by simp
  next
    case (2 g node visited l)
    show ?case by simp
  next
    case (3 g d ds visited l)
    show ?case
    proof (cases "d \<in> ?keys g")
      case True
      with 3 have "card (?keys g - insert d visited) < card (?keys g - visited)"
        by (intro psubset_card_mono) auto
      then show ?thesis by simp
    next
      case False
      then have "getDependents_shallow g d = []" by (simp add: getDependents_shallow_def)
      moreover from False have "?keys g - insert d visited = ?keys g - visited" by auto
      ultimately show ?thesis by simp
    qed
  next
    case 4
    have dec: "(Inr (g, ds, v', l'), Inr (g, d # ds, visited, l)) \<in> measures [?m1, ?m2]"
      if "visited \<subseteq> v'" for g :: "'a DependencyGraph" and d ds visited v' l l'
    proof -
      from that have "card (?keys g - v') \<le> card (?keys g - visited)"
        by (intro card_mono) auto
      then show ?thesis by auto
    qed
    from 4 show ?case using grows(1) dec by (metis fst_conv)
  next
    case (5 g d ds visited l)
    show ?case by simp
  qed
qed

termination getTopologicalDependents
  by (rule getTopologicalDependents_total)

text \<open>
  \<open>getDependents(node, shallow)\<close> returns an iterable: an empty array, the keys of the set
  of the node, or the linked list without its first element. The model gives the items
  that the iterable yields, in order.
\<close>

definition getDependents :: "'a DependencyGraph \<Rightarrow> 'a \<Rightarrow> bool \<Rightarrow> 'a list" where
  "getDependents g node shallow =
     (if \<not> node \<in> fst ` set (relationships g) then []
      else if shallow
        then (case map_of (relationships g) node of Some s \<Rightarrow> s | None \<Rightarrow> [])
        else (let list = snd (getTopologicalDependents g node {} LinkedList_new);
                  list' = snd (ll_remove list)
              in iterate list'))"

fun getTopologicalSort_loop ::
  "'a DependencyGraph \<Rightarrow> 'a list \<Rightarrow> 'a set \<Rightarrow> 'a LinkedList \<Rightarrow> 'a set \<times> 'a LinkedList" where
  "getTopologicalSort_loop g [] visited list = (visited, list)"
| "getTopologicalSort_loop g (node # nodes) visited list =
     (if node \<notin> visited
      then (case getTopologicalDependents g node visited list of
              (visited', list') \<Rightarrow> getTopologicalSort_loop g nodes visited' list')
      else getTopologicalSort_loop g nodes visited list)"

definition getTopologicalSort :: "'a DependencyGraph \<Rightarrow> 'a LinkedList" where
  "getTopologicalSort g = snd (getTopologicalSort_loop g (getNodes g) {} LinkedList_new)"

text \<open>
  \<open>toString\<close>: the two nested \<open>for\<close> loops append one line for each dependent of each
  node. \<open>str\<close> is the \<open>toString\<close> of the items.
\<close>

definition newline :: char where
  "newline = CHR 0x0A"

definition toString :: "('a \<Rightarrow> string) \<Rightarrow> 'a DependencyGraph \<Rightarrow> string" where
  "toString str g =
     foldl (\<lambda>result from.
              foldl (\<lambda>result to. result @ str from @ ''->'' @ str to @ [newline])
                    result (getDependents g from True))
           [] (getNodes g)"

text \<open>
  \<open>String.prototype.indexOf(searchString, position)\<close>: the position is cut to the string,
  the result is the first index at or after it where the search string starts, and \<open>-1\<close>
  when there is none. \<open>indexOf_from\<close> reads the rest of the string, \<open>k\<close> being the index of
  its first character.
\<close>

fun indexOf_from :: "string \<Rightarrow> string \<Rightarrow> nat \<Rightarrow> int" where
  "indexOf_from pat [] k = (if pat = [] then int k else - 1)"
| "indexOf_from pat (c # cs) k =
     (if prefix pat (c # cs) then int k else indexOf_from pat cs (Suc k))"

definition indexOf :: "string \<Rightarrow> string \<Rightarrow> int \<Rightarrow> int" where
  "indexOf s pat position =
     (let p = nat (min (max position 0) (int (length s)))
      in indexOf_from pat (drop p s) p)"

text \<open>
  \<open>String.prototype.substring(start, end)\<close>: both indices are cut to the string, and they
  are swapped when the first is the larger.
\<close>

definition substring :: "string \<Rightarrow> int \<Rightarrow> int \<Rightarrow> string" where
  "substring s start end' =
     (let size = int (length s);
          a = min (max start 0) size;
          b = min (max end' 0) size;
          lo = min a b;
          hi = max a b
      in take (nat (hi - lo)) (drop (nat lo) s))"

text \<open>
  The \<open>while\<close> loop of \<open>Generate\<close>, with the local variables \<open>graph\<close>, \<open>start\<close> and \<open>index\<close>.
  Nothing in the loop bounds the number of its rounds, so the result is an option:
  \<open>None\<close> is a loop that never ends, \<open>Some (Inl e)\<close> an error thrown by \<open>addDependency\<close>,
  \<open>Some (Inr graph)\<close> the graph returned. The items are strings, on which \<open>==\<close> is
  equality.
\<close>

partial_function (option) Generate_loop ::
  "string \<Rightarrow> string DependencyGraph \<Rightarrow> int \<Rightarrow> int \<Rightarrow> (error + string DependencyGraph) option" where
  "Generate_loop str graph start index =
     (if index > 0
      then (let from = substring str start index;
                start1 = index + 1;
                index1 = indexOf str [newline] index;
                to = substring str (start1 + 1) index1
            in case addDependency (=) graph from to of
                 (graph', Inl e) \<Rightarrow> Some (Inl e)
               | (graph', Inr u) \<Rightarrow>
                   Generate_loop str graph' (index1 + 1) (indexOf str ''->'' (index1 + 1)))
      else Some (Inr graph))"

definition Generate :: "string \<Rightarrow> (error + string DependencyGraph) option" where
  "Generate str = Generate_loop str DependencyGraph_new 0 (indexOf str ''->'' 0)"

section \<open>Notions of the specification\<close>

text \<open>
  The relation that a graph stores: \<open>(u, v)\<close> is an edge when \<open>v\<close> is in the set of direct
  dependents that the map holds for the key \<open>u\<close>. The nodes are the keys of the map.
\<close>

definition edges :: "'a DependencyGraph \<Rightarrow> ('a \<times> 'a) set" where
  "edges g = {(u, v). v \<in> set (getDependents_shallow g u)}"

definition nodes :: "'a DependencyGraph \<Rightarrow> 'a set" where
  "nodes g = set (getNodes g)"

text \<open>\<open>before xs u v\<close>: \<open>u\<close> occurs in \<open>xs\<close> and \<open>v\<close> occurs after it.\<close>

definition before :: "'a list \<Rightarrow> 'a \<Rightarrow> 'a \<Rightarrow> bool" where
  "before xs u v = (\<exists>as bs cs. xs = as @ u # bs @ v # cs)"

text \<open>
  \<open>topo E xs\<close>: no item occurs twice in \<open>xs\<close>, and every item of \<open>xs\<close> has all its direct
  dependents after it in \<open>xs\<close>.
\<close>

fun topo :: "('a \<times> 'a) set \<Rightarrow> 'a list \<Rightarrow> bool" where
  "topo E [] = True"
| "topo E (x # xs) = (x \<notin> set xs \<and> (\<forall>v. (x, v) \<in> E \<longrightarrow> v \<in> set xs) \<and> topo E xs)"

text \<open>
  A sequence of calls on a graph whose items have \<open>eq\<close> as their \<open>==\<close>. An error thrown by \<open>addDependency\<close> is caught, and the
  next call runs on the graph that the failed call has left.
\<close>

datatype 'a operation = Add 'a | Remove 'a | AddDependency 'a 'a

fun step ::
  "('a \<Rightarrow> 'a \<Rightarrow> bool) \<Rightarrow> 'a DependencyGraph \<Rightarrow> 'a operation
     \<Rightarrow> 'a DependencyGraph \<times> (error + unit)" where
  "step eq g (Add x) = (add g x, Inr ())"
| "step eq g (Remove x) = (remove g x, Inr ())"
| "step eq g (AddDependency a b) = addDependency eq g a b"

definition run ::
  "('a \<Rightarrow> 'a \<Rightarrow> bool) \<Rightarrow> 'a DependencyGraph \<Rightarrow> 'a operation list \<Rightarrow> 'a DependencyGraph" where
  "run eq g ops = foldl (\<lambda>g op. fst (step eq g op)) g ops"

text \<open>\<open>no_raise eq g ops\<close>: no call of the sequence, run from \<open>g\<close>, throws.\<close>

fun no_raise :: "('a \<Rightarrow> 'a \<Rightarrow> bool) \<Rightarrow> 'a DependencyGraph \<Rightarrow> 'a operation list \<Rightarrow> bool" where
  "no_raise eq g [] = True"
| "no_raise eq g (op # ops) =
     (snd (step eq g op) = Inr () \<and> no_raise eq (fst (step eq g op)) ops)"

text \<open>\<open>never_added x ops\<close>: no call of the sequence adds \<open>x\<close>, as a node or as an endpoint.\<close>

fun never_added :: "'a \<Rightarrow> 'a operation list \<Rightarrow> bool" where
  "never_added x [] = True"
| "never_added x (Add y # ops) = (x \<noteq> y \<and> never_added x ops)"
| "never_added x (Remove y # ops) = never_added x ops"
| "never_added x (AddDependency a b # ops) = (x \<noteq> a \<and> x \<noteq> b \<and> never_added x ops)"

text \<open>A list built by inserting the items of \<open>xs\<close>, in that order, into a fresh list.\<close>

definition insert_all :: "'a list \<Rightarrow> 'a LinkedList" where
  "insert_all xs = foldl (\<lambda>l x. ll_insert x l) LinkedList_new xs"

text \<open>Strings joined by single spaces.\<close>

fun join_spaces :: "string list \<Rightarrow> string" where
  "join_spaces [] = []"
| "join_spaces [s] = s"
| "join_spaces (s # t # ts) = s @ '' '' @ join_spaces (t # ts)"

text \<open>\<open>occurs pat s\<close>: the string \<open>pat\<close> occurs in \<open>s\<close>.\<close>

definition occurs :: "string \<Rightarrow> string \<Rightarrow> bool" where
  "occurs pat s = (\<exists>pre post. s = pre @ pat @ post)"

text \<open>An identifier that the serialised form can carry: no arrow and no newline in it.\<close>

definition valid_id :: "string \<Rightarrow> bool" where
  "valid_id s = (\<not> occurs ''->'' s \<and> newline \<notin> set s)"


text \<open>
  The edges in the order in which \<open>toString\<close> prints them, the line that it prints for an
  edge, and the calls of \<open>addDependency\<close> that \<open>Generate\<close> makes for a list of edges, up to
  the first one that throws.
\<close>

definition edge_list :: "'a DependencyGraph \<Rightarrow> ('a \<times> 'a) list" where
  "edge_list g = concat (map (\<lambda>u. map (\<lambda>v. (u, v)) (getDependents g u True)) (getNodes g))"

definition line :: "string \<times> string \<Rightarrow> string" where
  "line e = fst e @ ''->'' @ snd e @ [newline]"

fun add_all :: "'a DependencyGraph \<Rightarrow> ('a \<times> 'a) list \<Rightarrow> error + 'a DependencyGraph" where
  "add_all g [] = Inr g"
| "add_all g ((u, v) # es) =
     (case addDependency (=) g u v of
        (g', Inl e) \<Rightarrow> Inl e
      | (g', Inr _) \<Rightarrow> add_all g' es)"

section \<open>The linked list: iteration and printing\<close>

lemma drain_None [simp]: "drain None = []"
  by (simp add: iterator_next_def)

lemma drain_Some [simp]: "drain (Some n) = data n # drain (next_node n)"
  by (simp add: iterator_next_def)

declare drain.simps [simp del]

lemma iterate_new [simp]: "iterate LinkedList_new = []"
  by (simp add: iterate_def LinkedList_new_def)

lemma iterate_insert [simp]: "iterate (ll_insert x l) = x # iterate l"
  by (simp add: iterate_def ll_insert_def split: option.splits)

lemma iterate_remove: "iterate (snd (ll_remove l)) = tl (iterate l)"
  by (simp add: iterate_def ll_remove_def split: option.splits)

lemma iterate_insert_all: "iterate (foldl (\<lambda>l x. ll_insert x l) l xs) = rev xs @ iterate l"
  by (induction xs arbitrary: l) simp_all

lemma toString_loop_eq:
  "toString_loop str c s = s @ concat (map (\<lambda>x. str x @ '' '') (drain c))"
proof (induction str c s rule: toString_loop.induct)
  case (1 str s)
  show ?case by simp
next
  case (2 str d n s)
  then show ?case by (simp add: Node_toString_def)
qed

lemma substr_butlast: "substr s 0 (int (length s) - 1) = butlast s"
  by (cases s rule: rev_cases) (auto simp: substr_def Let_def)

lemma butlast_lines: "butlast (concat (map (\<lambda>x. str x @ '' '') ys)) = join_spaces (map str ys)"
proof (induction ys rule: induct_list012)
  case 1
  show ?case by simp
next
  case (2 x)
  show ?case by simp
next
  case (3 x y zs)
  then show ?case by (simp add: butlast_append)
qed

lemma ll_toString_eq: "ll_toString str l = join_spaces (map str (iterate l))"
  by (simp add: ll_toString_def Let_def toString_loop_eq substr_butlast butlast_lines iterate_def)

text \<open>
  C9. A list built by inserting \<open>x1, ..., xn\<close> in that order into a fresh list iterates as
  \<open>xn, ..., x1\<close>; \<open>toString\<close> prints the items in that order, joined by single spaces with
  no space after the last one, and prints the empty list as the empty string.
\<close>

theorem C9_insertion_order:
  "iterate (insert_all xs) = rev xs
   \<and> ll_toString str (insert_all xs) = join_spaces (map str (rev xs))
   \<and> ll_toString str (insert_all []) = []"
  by (simp add: insert_all_def ll_toString_eq iterate_insert_all)

theorem C9_insertion_order_witness:
  "iterate (insert_all [''x'', ''y'', ''z'']) = [''z'', ''y'', ''x'']
   \<and> ll_toString id (insert_all [''x'', ''y'', ''z'']) = ''z y x''"
  using C9_insertion_order [of "[''x'', ''y'', ''z'']" id] by simp

section \<open>The map of the graph\<close>

lemma key_iff: "u \<in> fst ` set al \<longleftrightarrow> map_of al u \<noteq> None"
  by (simp add: map_of_eq_None_iff)

lemma getDependents_shallow_eq:
  "getDependents_shallow g u = (case map_of (relationships g) u of None \<Rightarrow> [] | Some s \<Rightarrow> s)"
  by (auto simp: getDependents_shallow_def key_iff split: option.splits)

lemma getDependents_True: "getDependents g u True = getDependents_shallow g u"
  by (simp add: getDependents_def getDependents_shallow_def)

lemma contains_iff: "contains g x \<longleftrightarrow> map_of (relationships g) x \<noteq> None"
  by (simp add: contains_def key_iff)

lemma not_contains_shallow: "\<not> contains g x \<Longrightarrow> getDependents_shallow g x = []"
  by (simp add: contains_def getDependents_shallow_def)

lemma nodes_iff: "x \<in> nodes g \<longleftrightarrow> contains g x"
  by (simp add: nodes_def getNodes_def contains_def)

lemma edgesI: "v \<in> set (getDependents_shallow g u) \<Longrightarrow> (u, v) \<in> edges g"
  by (simp add: edges_def)

lemma edges_iff: "(u, v) \<in> edges g \<longleftrightarrow> v \<in> set (getDependents_shallow g u)"
  by (simp add: edges_def)

lemma edges_source: "(u, v) \<in> edges g \<Longrightarrow> contains g u"
  by (cases "contains g u") (auto simp: edges_def not_contains_shallow)

lemma map_of_add:
  "map_of (relationships (add g x)) =
     (if contains g x then map_of (relationships g) else (map_of (relationships g))(x \<mapsto> []))"
  by (simp add: add_def update_conv')

lemma contains_add [simp]: "contains (add g x) y \<longleftrightarrow> y = x \<or> contains g y"
  by (auto simp: contains_iff map_of_add)

lemma shallow_add [simp]: "getDependents_shallow (add g x) u = getDependents_shallow g u"
  by (auto simp: getDependents_shallow_eq map_of_add contains_iff split: option.splits)

lemma edges_add [simp]: "edges (add g x) = edges g"
  by (simp add: edges_def)

lemma map_of_remove:
  "map_of (relationships (remove g x)) = (map_of (relationships g))(x := None)"
  by (auto simp: remove_def delete_conv' key_iff)

lemma contains_remove [simp]: "contains (remove g x) y \<longleftrightarrow> y \<noteq> x \<and> contains g y"
  by (auto simp: contains_iff map_of_remove)

lemma shallow_remove:
  "getDependents_shallow (remove g x) u = (if u = x then [] else getDependents_shallow g u)"
  by (simp add: getDependents_shallow_eq map_of_remove)

lemma edges_remove: "edges (remove g x) = {(u, v). (u, v) \<in> edges g \<and> u \<noteq> x}"
  by (auto simp: edges_def shallow_remove split: if_splits)

lemma set_set_add [simp]: "set (set_add s x) = insert x (set s)"
  by (auto simp: set_add_def)

lemma addDependency_cases:
  obtains s where
    "map_of (relationships (add (add g a) b)) a = Some s"
    "addDependency eq g a b =
       (let g3 = (add (add g a) b)\<lparr>relationships :=
                   AList.update a (set_add s b) (relationships (add (add g a) b))\<rparr>
        in (g3, case traverse eq g3 a a {} of Inl e \<Rightarrow> Inl e | Inr visited \<Rightarrow> Inr ()))"
proof -
  have "contains (add (add g a) b) a" by simp
  then obtain s where s: "map_of (relationships (add (add g a) b)) a = Some s"
    by (auto simp: contains_iff)
  show thesis
    by (rule that [OF s]) (simp add: addDependency_def Let_def s split: sum.splits)
qed

lemma shallow_addDependency:
  "getDependents_shallow (fst (addDependency eq g a b)) u =
     (if u = a then set_add (getDependents_shallow g a) b else getDependents_shallow g u)"
proof -
  obtain s where s: "map_of (relationships (add (add g a) b)) a = Some s"
    and eq: "addDependency eq g a b =
       (let g3 = (add (add g a) b)\<lparr>relationships :=
                   AList.update a (set_add s b) (relationships (add (add g a) b))\<rparr>
        in (g3, case traverse eq g3 a a {} of Inl e \<Rightarrow> Inl e | Inr visited \<Rightarrow> Inr ()))"
    by (rule addDependency_cases)
  have "getDependents_shallow (add (add g a) b) a = s"
    using s by (simp add: getDependents_shallow_eq)
  then have sa: "s = getDependents_shallow g a" by simp
  have "getDependents_shallow (add (add g a) b) u = getDependents_shallow g u" by simp
  then have "(case map_of (relationships (add (add g a) b)) u of None \<Rightarrow> [] | Some s \<Rightarrow> s)
      = getDependents_shallow g u"
    by (simp add: getDependents_shallow_eq)
  then show ?thesis
    using sa by (simp add: eq Let_def getDependents_shallow_eq [of "_\<lparr>relationships := _\<rparr>"] update_conv')
qed

lemma contains_addDependency [simp]:
  "contains (fst (addDependency eq g a b)) u \<longleftrightarrow> u = a \<or> u = b \<or> contains g u"
proof -
  obtain s where s: "map_of (relationships (add (add g a) b)) a = Some s"
    and eq: "addDependency eq g a b =
       (let g3 = (add (add g a) b)\<lparr>relationships :=
                   AList.update a (set_add s b) (relationships (add (add g a) b))\<rparr>
        in (g3, case traverse eq g3 a a {} of Inl e \<Rightarrow> Inl e | Inr visited \<Rightarrow> Inr ()))"
    by (rule addDependency_cases)
  have "contains (add (add g a) b) u \<longleftrightarrow> u = a \<or> u = b \<or> contains g u" by auto
  then show ?thesis
    by (auto simp: eq Let_def contains_iff update_conv')
qed

lemma edges_addDependency [simp]:
  "edges (fst (addDependency eq g a b)) = insert (a, b) (edges g)"
  by (auto simp: edges_def shallow_addDependency split: if_splits)

lemma nodes_addDependency: "nodes (fst (addDependency eq g a b)) = nodes g \<union> {a, b}"
  by (auto simp: nodes_iff)

lemmas eval_graph = addDependency_def add_def contains_def DependencyGraph_new_def set_add_def
  getDependents_shallow_def

text \<open>
  C2. When \<open>addDependency(from, to)\<close> throws the circular dependency error, the graph that
  it leaves contains \<open>from\<close> and \<open>to\<close>, and \<open>to\<close> is in the set of direct dependents of
  \<open>from\<close>: nothing is rolled back.
\<close>

theorem C2_no_rollback:
  assumes "snd (addDependency eq g from to) = Inl CircularDependency"
  shows "contains (fst (addDependency eq g from to)) from
       \<and> contains (fst (addDependency eq g from to)) to
       \<and> to \<in> set (getDependents (fst (addDependency eq g from to)) from True)
       \<and> (\<exists>s. getAdjacentNodes (fst (addDependency eq g from to)) from = Some s \<and> to \<in> set s)"
proof -
  let ?g' = "fst (addDependency eq g from to)"
  have c: "contains ?g' from" "contains ?g' to" by simp_all
  have d: "to \<in> set (getDependents_shallow ?g' from)"
    by (simp add: shallow_addDependency)
  from c(1) obtain s where s: "map_of (relationships ?g') from = Some s"
    by (auto simp: contains_iff)
  with d have "to \<in> set s" by (simp add: getDependents_shallow_eq)
  with s c d show ?thesis
    by (simp add: getDependents_True getAdjacentNodes_def)
qed

theorem C2_no_rollback_witness:
  "snd (addDependency (=) (fst (addDependency (=) DependencyGraph_new ''a'' ''b'')) ''b'' ''a'')
     = Inl CircularDependency
   \<and> contains (fst (addDependency (=) (fst (addDependency (=) DependencyGraph_new ''a'' ''b'')) ''b'' ''a'')) ''b''
   \<and> ''a'' \<in> set (getDependents
        (fst (addDependency (=) (fst (addDependency (=) DependencyGraph_new ''a'' ''b'')) ''b'' ''a'')) ''b'' True)"
proof -
  have h: "snd (addDependency (=) (fst (addDependency (=) DependencyGraph_new ''a'' ''b'')) ''b'' ''a'')
     = Inl CircularDependency"
    by (simp add: eval_graph)
  show ?thesis
    using h C2_no_rollback [OF h] by blast
qed

section \<open>Queries on a node that is not in the graph\<close>

lemma absent_node_queries:
  assumes "\<not> contains g x"
  shows "getDependents g x shallow = []" and "getAdjacentNodes g x = None"
  using assms by (simp_all add: getDependents_def contains_def getAdjacentNodes_def key_iff)

lemma contains_step:
  "contains (fst (step eq g op)) x \<Longrightarrow> never_added x [op] \<Longrightarrow> contains g x"
  by (cases op) auto

lemma never_added_run:
  "never_added x ops \<Longrightarrow> \<not> contains g x \<Longrightarrow> \<not> contains (run eq g ops) x"
proof (induction ops arbitrary: g)
  case Nil
  then show ?case by (simp add: run_def)
next
  case (Cons op ops)
  from Cons.prems(1) have one: "never_added x [op]"
    by (cases op) simp_all
  from Cons.prems(1) have rest: "never_added x ops"
    by (cases op) simp_all
  have "\<not> contains (fst (step eq g op)) x"
  proof
    assume "contains (fst (step eq g op)) x"
    from contains_step [OF this one] Cons.prems(2) show False by simp
  qed
  from Cons.IH [OF rest this] show ?case by (simp add: run_def)
qed

lemma contains_new [simp]: "\<not> contains DependencyGraph_new x"
  by (simp add: contains_def DependencyGraph_new_def)

text \<open>
  C7, as the code has it. For an item \<open>x\<close> that no call has added, as a node or as an
  endpoint of \<open>addDependency\<close>, \<open>getDependents(x, shallow)\<close> yields nothing for both values
  of \<open>shallow\<close>, and \<open>getAdjacentNodes(x)\<close> returns \<open>undefined\<close>, the result of
  \<open>Map.prototype.get\<close> on a missing key: no set, not an empty one. Neither call throws.
\<close>

theorem C7_absent_node:
  assumes "never_added x ops"
  shows "getDependents (run eq DependencyGraph_new ops) x True = []
       \<and> getDependents (run eq DependencyGraph_new ops) x False = []
       \<and> getAdjacentNodes (run eq DependencyGraph_new ops) x = None"
proof -
  have "\<not> contains (run eq DependencyGraph_new ops) x"
    using assms by (rule never_added_run) simp
  then show ?thesis by (simp add: absent_node_queries)
qed

theorem C7_absent_node_witness:
  "never_added ''x'' [AddDependency ''a'' ''b'', Remove ''b'']
   \<and> getDependents (run (=) DependencyGraph_new [AddDependency ''a'' ''b'', Remove ''b'']) ''x'' False = []
   \<and> getAdjacentNodes (run (=) DependencyGraph_new [AddDependency ''a'' ''b'', Remove ''b'']) ''x'' = None"
proof -
  have h: "never_added ''x'' [AddDependency ''a'' ''b'', Remove ''b'']" by simp
  show ?thesis using h C7_absent_node [OF h] by simp
qed

text \<open>
  The claim as it is written asks for an empty set from \<open>getAdjacentNodes\<close>; on the graph
  with the one node \<open>a\<close>, the never added \<open>x\<close> gets no set at all.
\<close>

theorem C7_getAdjacentNodes_counterexample:
  "never_added ''x'' [Add ''a'']
   \<and> getAdjacentNodes (run (=) DependencyGraph_new [Add ''a'']) ''x'' \<noteq> Some []"
  by (simp add: run_def getAdjacentNodes_def add_def contains_def DependencyGraph_new_def)

section \<open>Parsing\<close>

lemma indexOf_from_absent: "\<not> occurs pat s \<Longrightarrow> indexOf_from pat s k = - 1"
proof (induction s arbitrary: k)
  case Nil
  then show ?case by (auto simp: occurs_def)
next
  case (Cons c cs)
  have "\<not> prefix pat (c # cs)"
  proof
    assume "prefix pat (c # cs)"
    then obtain zs where "c # cs = [] @ pat @ zs" by (auto simp: prefix_def)
    then have "occurs pat (c # cs)" unfolding occurs_def by blast
    with Cons.prems show False by simp
  qed
  moreover have "\<not> occurs pat cs"
  proof
    assume "occurs pat cs"
    then obtain pre post where "cs = pre @ pat @ post" by (auto simp: occurs_def)
    then have "c # cs = (c # pre) @ pat @ post" by simp
    then have "occurs pat (c # cs)" unfolding occurs_def by blast
    with Cons.prems show False by simp
  qed
  ultimately show ?case using Cons.IH by simp
qed

lemma indexOf_absent: "\<not> occurs pat s \<Longrightarrow> indexOf s pat 0 = - 1"
  by (simp add: indexOf_def indexOf_from_absent)

lemma indexOf_prefix: "prefix pat s \<Longrightarrow> indexOf s pat 0 = 0"
  by (cases s) (simp_all add: indexOf_def)

lemma Generate_loop_stop: "index \<le> 0 \<Longrightarrow> Generate_loop str graph start index = Some (Inr graph)"
  by (subst Generate_loop.simps) simp

text \<open>
  C10. \<open>Generate(s)\<close> returns a graph of size 0, with no node and no edge, for every string
  \<open>s\<close> that starts with the arrow or in which the arrow does not occur: the loop runs only
  while the index found is strictly positive. The empty string is such an input.
\<close>

theorem C10_Generate_empty:
  assumes "prefix ''->'' s \<or> \<not> occurs ''->'' s"
  shows "\<exists>g. Generate s = Some (Inr g) \<and> dg_size g = 0 \<and> getNodes g = [] \<and> edges g = {}"
proof -
  from assms have "indexOf s ''->'' 0 \<le> 0"
    using indexOf_prefix [of "''->''" s] indexOf_absent [of "''->''" s] by auto
  then have "Generate s = Some (Inr DependencyGraph_new)"
    by (simp add: Generate_def Generate_loop_stop)
  moreover have "dg_size (DependencyGraph_new :: string DependencyGraph) = 0"
    and "getNodes (DependencyGraph_new :: string DependencyGraph) = []"
    and "edges (DependencyGraph_new :: string DependencyGraph) = {}"
    by (simp_all add: dg_size_def DependencyGraph_new_def getNodes_def edges_def
        getDependents_shallow_def)
  ultimately show ?thesis by blast
qed

theorem C10_Generate_empty_witness:
  "(prefix ''->'' (''->b'' @ [newline]) \<or> \<not> occurs ''->'' (''->b'' @ [newline]))
   \<and> (\<exists>g. Generate (''->b'' @ [newline]) = Some (Inr g) \<and> dg_size g = 0 \<and> getNodes g = []
          \<and> edges g = {})"
proof -
  have h: "prefix ''->'' (''->b'' @ [newline]) \<or> \<not> occurs ''->'' (''->b'' @ [newline])"
    by simp
  show ?thesis using h C10_Generate_empty [OF h] by blast
qed

section \<open>The cycle check\<close>

declare traverse.simps [simp del] traverse_loop.simps [simp del]

text \<open>A call that throws has found, on a path from \<open>current\<close>, an item that is \<open>==\<close> to \<open>node\<close>.\<close>

lemma traverse_raises:
  shows "traverse eq g current node visited = Inl e \<Longrightarrow>
           e = CircularDependency \<and> (\<exists>d. (current, d) \<in> (edges g)\<^sup>+ \<and> eq d node)"
    and "traverse_loop eq g ds node visited = Inl e \<Longrightarrow>
           e = CircularDependency
           \<and> (\<exists>x \<in> set ds. eq x node \<or> (\<exists>d. (x, d) \<in> (edges g)\<^sup>+ \<and> eq d node))"
proof (induction eq g current node visited and eq g ds node visited
    rule: traverse_traverse_loop.induct)
  case (1 eq g current node visited)
  from "1.prems" have
    "traverse_loop eq g (getDependents_shallow g current) node (insert current visited) = Inl e"
    by (simp add: traverse.simps)
  from "1.IH" [OF this] obtain x where e: "e = CircularDependency"
    and x: "(current, x) \<in> edges g"
    and d: "eq x node \<or> (\<exists>d. (x, d) \<in> (edges g)\<^sup>+ \<and> eq d node)"
    by (auto simp: edges_iff)
  from d have "\<exists>d. (current, d) \<in> (edges g)\<^sup>+ \<and> eq d node"
  proof
    assume "eq x node"
    with x show ?thesis by blast
  next
    assume "\<exists>d. (x, d) \<in> (edges g)\<^sup>+ \<and> eq d node"
    then obtain d where "(x, d) \<in> (edges g)\<^sup>+" and "eq d node" by blast
    with x have "(current, d) \<in> (edges g)\<^sup>+" by (auto intro: trancl_into_trancl2)
    with \<open>eq d node\<close> show ?thesis by blast
  qed
  with e show ?case by simp
next
  case (2 eq g node visited)
  then show ?case by (simp add: traverse_loop.simps)
next
  case (3 eq g d ds node visited)
  show ?case
  proof (cases "eq d node")
    case True
    with "3.prems" show ?thesis by (simp add: traverse_loop.simps)
  next
    case False
    note dn = this
    show ?thesis
    proof (cases "d \<in> visited")
      case True
      with dn "3.prems"(1) have "traverse_loop eq g ds node visited = Inl e"
        by (simp add: traverse_loop.simps)
      from "3.IH"(3) [OF dn _ this] True show ?thesis by auto
    next
      case False
      show ?thesis
      proof (cases "traverse eq g d node visited")
        case (Inl e')
        with dn False "3.prems"(1) have "e' = e" by (simp add: traverse_loop.simps)
        with Inl "3.IH"(1) [OF dn False] show ?thesis by auto
      next
        case (Inr v')
        with dn False "3.prems"(1) have "traverse_loop eq g ds node v' = Inl e"
          by (simp add: traverse_loop.simps)
        from "3.IH"(2) [OF dn False Inr this] show ?thesis by auto
      qed
    qed
  qed
qed

text \<open>
  A call that returns has marked \<open>current\<close>, and every node that it has marked has all its
  direct dependents marked, none of them being \<open>==\<close> to \<open>node\<close>.
\<close>

lemma traverse_returns:
  shows "traverse eq g current node visited = Inr v' \<Longrightarrow>
           insert current visited \<subseteq> v'
           \<and> (\<forall>x \<in> v' - visited. \<forall>y. (x, y) \<in> edges g \<longrightarrow> y \<in> v' \<and> \<not> eq y node)"
    and "traverse_loop eq g ds node visited = Inr v' \<Longrightarrow>
           visited \<subseteq> v' \<and> set ds \<subseteq> v' \<and> (\<forall>d \<in> set ds. \<not> eq d node)
           \<and> (\<forall>x \<in> v' - visited. \<forall>y. (x, y) \<in> edges g \<longrightarrow> y \<in> v' \<and> \<not> eq y node)"
proof (induction eq g current node visited and eq g ds node visited arbitrary: v' and v'
    rule: traverse_traverse_loop.induct)
  case (1 eq g current node visited)
  from "1.prems" have
    "traverse_loop eq g (getDependents_shallow g current) node (insert current visited) = Inr v'"
    by (simp add: traverse.simps)
  from "1.IH" [OF this] have
    a: "insert current visited \<subseteq> v'"
    and b: "set (getDependents_shallow g current) \<subseteq> v'"
    and c: "\<forall>d \<in> set (getDependents_shallow g current). \<not> eq d node"
    and d: "\<forall>x \<in> v' - insert current visited.
              \<forall>y. (x, y) \<in> edges g \<longrightarrow> y \<in> v' \<and> \<not> eq y node"
    by simp_all
  have "\<forall>x \<in> v' - visited. \<forall>y. (x, y) \<in> edges g \<longrightarrow> y \<in> v' \<and> \<not> eq y node"
  proof (intro ballI allI impI)
    fix x y assume x: "x \<in> v' - visited" and e: "(x, y) \<in> edges g"
    show "y \<in> v' \<and> \<not> eq y node"
    proof (cases "x = current")
      case True
      with e have "y \<in> set (getDependents_shallow g current)" by (simp add: edges_iff)
      with b c show ?thesis by blast
    next
      case False
      with x have "x \<in> v' - insert current visited" by simp
      with d e show ?thesis by blast
    qed
  qed
  with a show ?case by simp
next
  case (2 eq g node visited)
  then show ?case by (simp add: traverse_loop.simps)
next
  case (3 eq g d ds node visited)
  from "3.prems" have dn: "\<not> eq d node"
    by (auto simp: traverse_loop.simps split: if_splits)
  show ?case
  proof (cases "d \<in> visited")
    case True
    with dn "3.prems" have "traverse_loop eq g ds node visited = Inr v'"
      by (simp add: traverse_loop.simps)
    from "3.IH"(3) [OF dn _ this] True dn show ?thesis by auto
  next
    case False
    with dn "3.prems" obtain v1 where
      v1: "traverse eq g d node visited = Inr v1" and v': "traverse_loop eq g ds node v1 = Inr v'"
      by (auto simp: traverse_loop.simps split: sum.splits)
    from "3.IH"(1) [OF dn False v1] have
      a: "insert d visited \<subseteq> v1"
        "\<forall>x \<in> v1 - visited. \<forall>y. (x, y) \<in> edges g \<longrightarrow> y \<in> v1 \<and> \<not> eq y node"
      by simp_all
    from "3.IH"(2) [OF dn False v1 v'] have
      b: "v1 \<subseteq> v'" "set ds \<subseteq> v'" "\<forall>d \<in> set ds. \<not> eq d node"
        "\<forall>x \<in> v' - v1. \<forall>y. (x, y) \<in> edges g \<longrightarrow> y \<in> v' \<and> \<not> eq y node"
      by simp_all
    have c: "\<forall>x \<in> v' - visited. \<forall>y. (x, y) \<in> edges g \<longrightarrow> y \<in> v' \<and> \<not> eq y node"
    proof (intro ballI allI impI)
      fix x y assume x: "x \<in> v' - visited" and e: "(x, y) \<in> edges g"
      show "y \<in> v' \<and> \<not> eq y node"
      proof (cases "x \<in> v1")
        case True
        with x a(2) e b(1) show ?thesis by blast
      next
        case False
        with x b(4) e show ?thesis by blast
      qed
    qed
    have "visited \<subseteq> v'" using a(1) b(1) by blast
    moreover have "set (d # ds) \<subseteq> v'" using a(1) b(1,2) by auto
    moreover have "\<forall>x \<in> set (d # ds). \<not> eq x node" using dn b(3) by simp
    ultimately show ?thesis using c by (intro conjI)
  qed
qed

lemma traverse_top_returns:
  assumes "traverse eq g a a {} = Inr v'" and "(a, d) \<in> (edges g)\<^sup>+"
  shows "\<not> eq d a"
proof -
  from traverse_returns(1) [OF assms(1)] have a: "a \<in> v'"
    and closed: "\<And>x y. x \<in> v' \<Longrightarrow> (x, y) \<in> edges g \<Longrightarrow> y \<in> v' \<and> \<not> eq y a"
    by auto
  have reach: "(a, x) \<in> (edges g)\<^sup>* \<Longrightarrow> x \<in> v'" for x
    by (induction rule: rtrancl_induct) (use a closed in auto)
  from assms(2) obtain x where "(a, x) \<in> (edges g)\<^sup>*" and "(x, d) \<in> edges g"
    by (auto dest: tranclD2)
  with reach closed show ?thesis by blast
qed

text \<open>
  The check from \<open>a\<close> throws exactly when \<open>a\<close> reaches, in one or more steps, an item that
  is \<open>==\<close> to \<open>a\<close>.
\<close>

lemma traverse_top:
  "traverse eq g a a {} = Inl CircularDependency \<longleftrightarrow> (\<exists>d. (a, d) \<in> (edges g)\<^sup>+ \<and> eq d a)"
proof (cases "traverse eq g a a {}")
  case (Inl e)
  from traverse_raises(1) [OF Inl] Inl show ?thesis by simp
next
  case (Inr v')
  from traverse_top_returns [OF Inr] Inr show ?thesis by auto
qed

lemma snd_addDependency:
  "snd (addDependency eq g a b) =
     (if \<exists>d. (a, d) \<in> (insert (a, b) (edges g))\<^sup>+ \<and> eq d a
      then Inl CircularDependency else Inr ())"
proof -
  obtain s where s: "map_of (relationships (add (add g a) b)) a = Some s"
    and def: "addDependency eq g a b =
       (let g3 = (add (add g a) b)\<lparr>relationships :=
                   AList.update a (set_add s b) (relationships (add (add g a) b))\<rparr>
        in (g3, case traverse eq g3 a a {} of Inl e \<Rightarrow> Inl e | Inr visited \<Rightarrow> Inr ()))"
    by (rule addDependency_cases)
  define g3 where "g3 = (add (add g a) b)\<lparr>relationships :=
                   AList.update a (set_add s b) (relationships (add (add g a) b))\<rparr>"
  have fst: "fst (addDependency eq g a b) = g3" by (simp add: def g3_def Let_def)
  have snd: "snd (addDependency eq g a b) =
      (case traverse eq g3 a a {} of Inl e \<Rightarrow> Inl e | Inr visited \<Rightarrow> Inr ())"
    by (simp add: def g3_def Let_def)
  have e: "edges g3 = insert (a, b) (edges g)"
    using edges_addDependency [of eq g a b] by (simp add: fst)
  show ?thesis
  proof (cases "traverse eq g3 a a {}")
    case (Inl err)
    with traverse_raises(1) [OF Inl] traverse_top [of eq g3 a] show ?thesis
      unfolding snd e by auto
  next
    case (Inr v')
    with traverse_top [of eq g3 a] show ?thesis
      unfolding snd e by auto
  qed
qed

text \<open>On items whose \<open>==\<close> is equality, the call throws exactly when a cycle passes through \<open>a\<close>.\<close>

lemma snd_addDependency_eq:
  "snd (addDependency (=) g a b) =
     (if (a, a) \<in> (insert (a, b) (edges g))\<^sup>+ then Inl CircularDependency else Inr ())"
  by (simp add: snd_addDependency)

lemma cycle_through_iff:
  "(\<exists>d. (a, d) \<in> r \<and> (d, a) \<in> r\<^sup>+) \<longleftrightarrow> (a, a) \<in> r\<^sup>+"
proof
  assume "\<exists>d. (a, d) \<in> r \<and> (d, a) \<in> r\<^sup>+"
  then show "(a, a) \<in> r\<^sup>+" by (auto intro: trancl_into_trancl2)
next
  assume "(a, a) \<in> r\<^sup>+"
  then obtain z where z: "(a, z) \<in> r" "(z, a) \<in> r\<^sup>*" by (auto dest: tranclD)
  show "\<exists>d. (a, d) \<in> r \<and> (d, a) \<in> r\<^sup>+"
  proof (cases "z = a")
    case True
    with z(1) show ?thesis by auto
  next
    case False
    with z(2) have "(z, a) \<in> r\<^sup>+" by (auto dest: rtranclD)
    with z(1) show ?thesis by blast
  qed
qed

lemma shallow_new [simp]: "getDependents_shallow DependencyGraph_new u = []"
  by (simp add: getDependents_shallow_def DependencyGraph_new_def)

lemma edges_new [simp]: "edges DependencyGraph_new = {}"
  by (simp add: edges_def)

lemma nodes_new [simp]: "nodes DependencyGraph_new = {}"
  by (simp add: nodes_def getNodes_def DependencyGraph_new_def)

lemmas eval_traverse = traverse.simps traverse_loop.simps

text \<open>
  What \<open>addDependency(from, to)\<close> does, for every \<open>==\<close>: the graph that it leaves contains
  both endpoints and has the relation of before with the edge from \<open>from\<close> to \<open>to\<close>, and
  the call throws exactly when \<open>from\<close> reaches, in one or more steps, an item that is \<open>==\<close>
  to \<open>from\<close>.
\<close>

lemma addDependency_raises_iff:
  "contains (fst (addDependency eq g from to)) from
   \<and> contains (fst (addDependency eq g from to)) to
   \<and> nodes (fst (addDependency eq g from to)) = nodes g \<union> {from, to}
   \<and> edges (fst (addDependency eq g from to)) = insert (from, to) (edges g)
   \<and> (snd (addDependency eq g from to) = Inl CircularDependency \<longleftrightarrow>
        (\<exists>d. (from, d) \<in> (edges (fst (addDependency eq g from to)))\<^sup>+ \<and> eq d from))
   \<and> (snd (addDependency eq g from to) = Inr () \<longleftrightarrow>
        \<not> (\<exists>d. (from, d) \<in> (edges (fst (addDependency eq g from to)))\<^sup>+ \<and> eq d from))"
proof -
  let ?g' = "fst (addDependency eq g from to)"
  have c1: "contains ?g' from" and c2: "contains ?g' to" by simp_all
  have n: "nodes ?g' = nodes g \<union> {from, to}" by (rule nodes_addDependency)
  have e: "edges ?g' = insert (from, to) (edges g)" by simp
  have r: "snd (addDependency eq g from to) = Inl CircularDependency \<longleftrightarrow>
        (\<exists>d. (from, d) \<in> (edges ?g')\<^sup>+ \<and> eq d from)"
    unfolding e by (simp add: snd_addDependency)
  have ok: "snd (addDependency eq g from to) = Inr () \<longleftrightarrow>
        \<not> (\<exists>d. (from, d) \<in> (edges ?g')\<^sup>+ \<and> eq d from)"
    unfolding e by (simp add: snd_addDependency)
  show ?thesis
    by (intro conjI) (fact c1 c2 n e r ok)+
qed

text \<open>
  On items whose \<open>==\<close> is equality, such as strings, the call throws exactly when a cycle of
  the relation that it leaves passes through \<open>from\<close>, that is, when \<open>from\<close> is reachable from
  one of its direct dependents; \<open>addDependency(a, a)\<close> always throws, and cycles that do
  not pass through \<open>from\<close> do not make the call throw.
\<close>

lemma addDependency_eq_raises_iff:
  "(snd (addDependency (=) g from to) = Inl CircularDependency \<longleftrightarrow>
        (\<exists>d. (from, d) \<in> edges (fst (addDependency (=) g from to))
           \<and> (d, from) \<in> (edges (fst (addDependency (=) g from to)))\<^sup>+))
   \<and> (snd (addDependency (=) g from to) = Inl CircularDependency \<longleftrightarrow>
        (from, from) \<in> (edges (fst (addDependency (=) g from to)))\<^sup>+)
   \<and> (snd (addDependency (=) g from to) = Inr () \<longleftrightarrow>
        (from, from) \<notin> (edges (fst (addDependency (=) g from to)))\<^sup>+)
   \<and> snd (addDependency (=) g a a) = Inl CircularDependency"
proof -
  let ?g' = "fst (addDependency (=) g from to)"
  have "(a, a) \<in> (insert (a, a) (edges g))\<^sup>+" by blast
  then have self: "snd (addDependency (=) g a a) = Inl CircularDependency"
    by (simp add: snd_addDependency_eq)
  have e: "edges ?g' = insert (from, to) (edges g)" by simp
  have r: "snd (addDependency (=) g from to) = Inl CircularDependency \<longleftrightarrow>
        (from, from) \<in> (edges ?g')\<^sup>+"
    unfolding e by (simp add: snd_addDependency_eq)
  have ok: "snd (addDependency (=) g from to) = Inr () \<longleftrightarrow>
        (from, from) \<notin> (edges ?g')\<^sup>+"
    unfolding e by (simp add: snd_addDependency_eq)
  have d: "snd (addDependency (=) g from to) = Inl CircularDependency \<longleftrightarrow>
        (\<exists>d. (from, d) \<in> edges ?g' \<and> (d, from) \<in> (edges ?g')\<^sup>+)"
    unfolding r by (rule cycle_through_iff [symmetric])
  show ?thesis
    by (intro conjI) (fact d r ok self)+
qed

text \<open>
  C1. The claim asks that \<open>addDependency(a, a)\<close> always throws, and that the call throws
  exactly when a cycle passes through \<open>from\<close>. The cycle check compares with \<open>==\<close>, and the
  map and the sets with SameValueZero. In a graph of numbers, \<open>addDependency(NaN, NaN)\<close>
  on the empty graph stores the edge from \<open>NaN\<close> to \<open>NaN\<close> and returns, since \<open>NaN == NaN\<close> is
  false: the relation that the call leaves has a cycle through \<open>from\<close>, and the call has
  not thrown.
\<close>

theorem C1_NaN_self_dependency_returns:
  "snd (addDependency number_eq DependencyGraph_new NaN NaN) = Inr ()
   \<and> contains (fst (addDependency number_eq DependencyGraph_new NaN NaN)) NaN
   \<and> getDependents (fst (addDependency number_eq DependencyGraph_new NaN NaN)) NaN True = [NaN]
   \<and> (NaN, NaN) \<in> (edges (fst (addDependency number_eq DependencyGraph_new NaN NaN)))\<^sup>+"
proof -
  have "addDependency number_eq DependencyGraph_new NaN NaN
      = (\<lparr>relationships = [(NaN, [NaN])], priv_size = 1\<rparr>, Inr ())"
    by (simp add: eval_graph eval_traverse)
  moreover have "(NaN, NaN) \<in> (edges (fst (addDependency number_eq DependencyGraph_new NaN NaN)))\<^sup>+"
    by (simp add: r_into_trancl)
  ultimately show ?thesis
    by (simp add: contains_def getDependents_def)
qed

section \<open>Sequences of calls\<close>

lemma acyclic_addDependency:
  assumes "acyclic (edges g)" and "snd (addDependency (=) g a b) = Inr ()"
  shows "acyclic (edges (fst (addDependency (=) g a b)))"
proof -
  from assms(2) have no: "(a, a) \<notin> (insert (a, b) (edges g))\<^sup>+"
    by (simp add: snd_addDependency_eq split: if_splits)
  have "(b, a) \<notin> (edges g)\<^sup>*"
  proof
    assume "(b, a) \<in> (edges g)\<^sup>*"
    then have "(b, a) \<in> (insert (a, b) (edges g))\<^sup>*"
      by (rule rtrancl_mono [THEN subsetD, rotated]) blast
    then have "(a, a) \<in> (insert (a, b) (edges g))\<^sup>+"
      by (rule rtrancl_into_trancl2 [rotated]) simp
    with no show False ..
  qed
  with assms(1) show ?thesis by (simp add: acyclic_insert)
qed

text \<open>
  C3. The claim asks for a relation without cycles after every call of \<open>addDependency\<close>
  that returns, also when earlier calls have thrown and the run has gone on. A call that
  throws leaves its edge in the graph. On the empty graph of strings, \<open>addDependency(a, a)\<close>
  throws and leaves the loop on \<open>a\<close>; the next call, \<open>addDependency(b, c)\<close>, returns, and
  the relation has a cycle.
\<close>

theorem C3_cycle_after_success:
  "snd (addDependency (=) DependencyGraph_new ''a'' ''a'') = Inl CircularDependency
   \<and> snd (addDependency (=) (run (=) DependencyGraph_new [AddDependency ''a'' ''a'']) ''b'' ''c'')
       = Inr ()
   \<and> (''a'', ''a'') \<in> edges (fst (addDependency (=)
          (run (=) DependencyGraph_new [AddDependency ''a'' ''a'']) ''b'' ''c''))
   \<and> \<not> acyclic (edges (fst (addDependency (=)
          (run (=) DependencyGraph_new [AddDependency ''a'' ''a'']) ''b'' ''c'')))"
proof -
  have r: "snd (addDependency (=) DependencyGraph_new ''a'' ''a'') = Inl CircularDependency"
    by (simp add: eval_graph eval_traverse)
  have s: "snd (addDependency (=) (run (=) DependencyGraph_new [AddDependency ''a'' ''a''])
      ''b'' ''c'') = Inr ()"
    by (simp add: run_def eval_graph eval_traverse)
  have e: "(''a'', ''a'') \<in> edges (fst (addDependency (=)
          (run (=) DependencyGraph_new [AddDependency ''a'' ''a'']) ''b'' ''c''))"
    by (simp add: run_def)
  then have "\<not> acyclic (edges (fst (addDependency (=)
          (run (=) DependencyGraph_new [AddDependency ''a'' ''a'']) ''b'' ''c'')))"
    by (auto simp: acyclic_def)
  with r s e show ?thesis by blast
qed

section \<open>Termination of the traversals\<close>

text \<open>
  C8. The cycle check and the topological traversal terminate on every graph, with or
  without cycles, from every node and every set of marked nodes: each argument is in the
  domain of the recursion, the set of the arguments from which every chain of recursive
  calls is finite (a recursive call marks a key that was not marked, or has fewer
  dependents left to read). The cycle check then ends in the circular dependency error or
  returns the set of marked nodes.
\<close>

theorem C8_traversals_terminate:
  "traverse_traverse_loop_dom (Inl (eq, g, current, node, visited))
   \<and> traverse_traverse_loop_dom (Inr (eq, g, ds, node, visited))
   \<and> getTopologicalDependents_getTopologicalDependents_loop_dom (Inl (g, current, visited, list))
   \<and> getTopologicalDependents_getTopologicalDependents_loop_dom (Inr (g, ds, visited, list))
   \<and> (traverse eq g current node visited = Inl CircularDependency
        \<or> (\<exists>visited'. traverse eq g current node visited = Inr visited'))"
proof -
  have "traverse eq g current node visited = Inl CircularDependency
        \<or> (\<exists>visited'. traverse eq g current node visited = Inr visited')"
    using traverse_raises(1) [of eq g current node visited]
    by (cases "traverse eq g current node visited") simp_all
  moreover have "traverse_traverse_loop_dom (Inl (eq, g, current, node, visited))"
    and "traverse_traverse_loop_dom (Inr (eq, g, ds, node, visited))"
    by (rule traverse_total [THEN spec])+
  moreover have
    "getTopologicalDependents_getTopologicalDependents_loop_dom (Inl (g, current, visited, list))"
    and "getTopologicalDependents_getTopologicalDependents_loop_dom (Inr (g, ds, visited, list))"
    by (rule getTopologicalDependents_total [THEN spec])+
  ultimately show ?thesis by simp
qed

text \<open>
  The graph that the caught errors of \<open>addDependency(a, a)\<close> and \<open>addDependency(b, a)\<close> after
  \<open>addDependency(a, b)\<close> leave has the cycles \<open>a \<rightarrow> a\<close> and \<open>a \<rightarrow> b \<rightarrow> a\<close>; both traversals end on
  it.
\<close>

theorem C8_traversals_terminate_witness:
  "traverse_traverse_loop_dom
     (Inl ((=), run (=) DependencyGraph_new
             [AddDependency ''a'' ''a'', AddDependency ''a'' ''b'', AddDependency ''b'' ''a''],
           ''a'', ''z'', {}))
   \<and> traverse (=) (run (=) DependencyGraph_new
          [AddDependency ''a'' ''a'', AddDependency ''a'' ''b'', AddDependency ''b'' ''a''])
        ''a'' ''z'' {} = Inr {''a'', ''b''}
   \<and> iterate (snd (getTopologicalDependents (run (=) DependencyGraph_new
          [AddDependency ''a'' ''a'', AddDependency ''a'' ''b'', AddDependency ''b'' ''a''])
        ''a'' {} LinkedList_new)) = [''a'', ''b'']"
proof -
  have "run (=) DependencyGraph_new
          [AddDependency ''a'' ''a'', AddDependency ''a'' ''b'', AddDependency ''b'' ''a'']
        = \<lparr>relationships = [(''a'', [''a'', ''b'']), (''b'', [''a''])], priv_size = 2\<rparr>"
    by (simp add: run_def eval_graph eval_traverse)
  then show ?thesis
    using C8_traversals_terminate [of "(=)" "run (=) DependencyGraph_new
          [AddDependency ''a'' ''a'', AddDependency ''a'' ''b'', AddDependency ''b'' ''a'']"
        "''a''" "''z''" "{}" "[]" LinkedList_new]
    by (simp add: eval_traverse getDependents_shallow_def insert_commute)
qed

section \<open>Topological order\<close>

declare getTopologicalDependents.simps [simp del] getTopologicalDependents_loop.simps [simp del]

lemma topo_distinct: "topo E xs \<Longrightarrow> distinct xs"
  by (induction xs) auto

lemma topo_closed: "topo E xs \<Longrightarrow> u \<in> set xs \<Longrightarrow> (u, v) \<in> E \<Longrightarrow> v \<in> set xs"
  by (induction xs) auto

lemma topo_closed_trancl:
  assumes "topo E xs" and "u \<in> set xs" and "(u, v) \<in> E\<^sup>+"
  shows "v \<in> set xs"
  using assms(3,1,2) by (induction rule: trancl_induct) (auto dest: topo_closed)

lemma before_Cons: "before xs u v \<Longrightarrow> before (x # xs) u v"
  unfolding before_def by (metis append_Cons)

lemma before_head: "v \<in> set xs \<Longrightarrow> before (x # xs) x v"
  unfolding before_def by (metis append_Nil split_list)

lemma before_set: "before xs u v \<Longrightarrow> u \<in> set xs \<and> v \<in> set xs"
  unfolding before_def by auto

lemma topo_before:
  "topo E xs \<Longrightarrow> u \<in> set xs \<Longrightarrow> (u, v) \<in> E\<^sup>+ \<Longrightarrow> before xs u v"
proof (induction xs)
  case Nil
  then show ?case by simp
next
  case (Cons x xs)
  show ?case
  proof (cases "u = x")
    case True
    have "topo E (x # xs)" and "x \<in> set (x # xs)" using Cons.prems by simp_all
    from topo_closed_trancl [OF this] Cons.prems(3) True have "v \<in> set (x # xs)" by simp
    moreover have "v \<noteq> x"
    proof
      assume "v = x"
      with Cons.prems(3) True obtain w where "(x, w) \<in> E" and "(w, x) \<in> E\<^sup>*"
        by (auto dest: tranclD)
      with Cons.prems(1) have "w \<in> set xs" and "topo E xs" by auto
      with \<open>(w, x) \<in> E\<^sup>*\<close> have "x \<in> set xs"
        by (induction rule: rtrancl_induct) (auto dest: topo_closed)
      with Cons.prems(1) show False by simp
    qed
    ultimately show ?thesis using True by (simp add: before_head)
  next
    case False
    with Cons.prems have "u \<in> set xs" and "topo E xs" by simp_all
    from Cons.IH [OF this(2,1) Cons.prems(3)] show ?thesis by (rule before_Cons)
  qed
qed

lemma topo_before_edge: "topo E xs \<Longrightarrow> u \<in> set xs \<Longrightarrow> (u, v) \<in> E \<Longrightarrow> before xs u v"
  by (rule topo_before) auto


text \<open>
  The traversal on a graph without cycles. The marked nodes that are not in the list are
  the ones whose calls are still running, and each of them reaches the node of the
  current call. A call prepends to the list the node and, after it, nodes that were not
  marked and that the node reaches; the list stays in topological order.
\<close>

lemma topological_dfs:
  assumes "acyclic (edges g)"
  shows "getTopologicalDependents g node visited list = (visited', list') \<Longrightarrow>
         node \<notin> visited \<Longrightarrow> set (iterate list) \<subseteq> visited \<Longrightarrow>
         topo (edges g) (iterate list) \<Longrightarrow>
         \<forall>x \<in> visited - set (iterate list). (x, node) \<in> (edges g)\<^sup>* \<Longrightarrow>
         \<exists>P. iterate list' = node # P @ iterate list \<and> visited' = visited \<union> set (node # P)
            \<and> set P \<inter> visited = {} \<and> topo (edges g) (iterate list')
            \<and> set P \<subseteq> (edges g)\<^sup>+ `` {node}"
    and "getTopologicalDependents_loop g ds visited list = (visited', list') \<Longrightarrow>
         n \<in> visited \<Longrightarrow> n \<notin> set (iterate list) \<Longrightarrow> set (iterate list) \<subseteq> visited \<Longrightarrow>
         topo (edges g) (iterate list) \<Longrightarrow>
         \<forall>x \<in> visited - set (iterate list). (x, n) \<in> (edges g)\<^sup>* \<Longrightarrow>
         set ds \<subseteq> edges g `` {n} \<Longrightarrow>
         \<exists>P. iterate list' = P @ iterate list \<and> visited' = visited \<union> set P
            \<and> set P \<inter> visited = {} \<and> topo (edges g) (iterate list')
            \<and> set P \<subseteq> (edges g)\<^sup>+ `` {n} \<and> set ds \<subseteq> set (iterate list')"
  using assms
proof (induction g node visited list and g ds visited list
    arbitrary: visited' list' and n visited' list'
    rule: getTopologicalDependents_getTopologicalDependents_loop.induct)
  case (1 g node visited list)
  let ?E = "edges g"
  let ?L = "iterate list"
  obtain v1 l1 where
    loop: "getTopologicalDependents_loop g (getDependents_shallow g node) (insert node visited) list
             = (v1, l1)"
    by (cases "getTopologicalDependents_loop g (getDependents_shallow g node)
          (insert node visited) list")
  with "1.prems"(1) have res: "visited' = v1" "list' = ll_insert node l1"
    by (simp_all add: getTopologicalDependents.simps)
  have "\<forall>x \<in> insert node visited - set ?L. (x, node) \<in> ?E\<^sup>*"
    using "1.prems"(5) by auto
  moreover have "node \<notin> set ?L" using "1.prems"(2,3) by auto
  moreover have "set ?L \<subseteq> insert node visited" using "1.prems"(3) by auto
  moreover have "set (getDependents_shallow g node) \<subseteq> ?E `` {node}"
    by (auto simp: edges_iff)
  ultimately obtain P where P:
    "iterate l1 = P @ ?L" "v1 = insert node visited \<union> set P"
    "set P \<inter> insert node visited = {}" "topo ?E (iterate l1)"
    "set P \<subseteq> ?E\<^sup>+ `` {node}" "set (getDependents_shallow g node) \<subseteq> set (iterate l1)"
    using "1.IH" [OF loop _ _ _ "1.prems"(4) _ _ "1.prems"(6), of node] by auto
  have "node \<notin> set (iterate l1)"
    using P(1,3) \<open>node \<notin> set ?L\<close> by auto
  moreover have "\<forall>v. (node, v) \<in> ?E \<longrightarrow> v \<in> set (iterate l1)"
    using P(6) by (auto simp: edges_iff)
  ultimately have "topo ?E (iterate list')"
    using P(4) by (simp add: res)
  moreover have "iterate list' = node # P @ ?L" by (simp add: res P(1))
  moreover have "visited' = visited \<union> set (node # P)" by (auto simp: res P(2))
  moreover have "set P \<inter> visited = {}" using P(3) by auto
  ultimately show ?case using P(5) by blast
next
  case (2 g visited list)
  then show ?case by (simp add: getTopologicalDependents_loop.simps)
next
  case (3 g d ds visited list)
  let ?E = "edges g"
  let ?L = "iterate list"
  have nd: "(n, d) \<in> ?E" and ds: "set ds \<subseteq> ?E `` {n}" using "3.prems"(7) by auto
  show ?case
  proof (cases "d \<in> visited")
    case True
    have "d \<in> set ?L"
    proof (rule ccontr)
      assume "d \<notin> set ?L"
      with True "3.prems"(6) have "(d, n) \<in> ?E\<^sup>*" by blast
      with nd have "(n, n) \<in> ?E\<^sup>+" by (rule rtrancl_into_trancl2)
      with "3.prems"(8) show False by (simp add: acyclic_def)
    qed
    from True "3.prems"(1) have "getTopologicalDependents_loop g ds visited list = (visited', list')"
      by (simp add: getTopologicalDependents_loop.simps)
    from "3.IH"(3) [OF _ this "3.prems"(2,3,4,5,6) ds "3.prems"(8)] True
    obtain P where P: "iterate list' = P @ ?L" "visited' = visited \<union> set P"
      "set P \<inter> visited = {}" "topo ?E (iterate list')" "set P \<subseteq> ?E\<^sup>+ `` {n}"
      "set ds \<subseteq> set (iterate list')"
      by auto
    have "set (d # ds) \<subseteq> set (iterate list')"
      using P(1,6) \<open>d \<in> set ?L\<close> by auto
    with P(1-5) show ?thesis by blast
  next
    case False
    obtain v1 l1 where call: "getTopologicalDependents g d visited list = (v1, l1)"
      by (cases "getTopologicalDependents g d visited list")
    with False "3.prems"(1) have
      rest: "getTopologicalDependents_loop g ds v1 l1 = (visited', list')"
      by (simp add: getTopologicalDependents_loop.simps)
    have "\<forall>x \<in> visited - set ?L. (x, d) \<in> ?E\<^sup>*"
      using "3.prems"(6) nd by (auto intro: rtrancl_into_rtrancl)
    from "3.IH"(1) [OF False call False "3.prems"(4,5) this "3.prems"(8)]
    obtain P1 where P1: "iterate l1 = d # P1 @ ?L" "v1 = visited \<union> set (d # P1)"
      "set P1 \<inter> visited = {}" "topo ?E (iterate l1)" "set P1 \<subseteq> ?E\<^sup>+ `` {d}"
      by auto
    have n1: "n \<in> v1" using P1(2) "3.prems"(2) by auto
    have n2: "n \<notin> set (iterate l1)"
      using P1(1,3) "3.prems"(2,3) False by auto
    have s1: "set (iterate l1) \<subseteq> v1" using P1(1,2) "3.prems"(4) by auto
    have g1: "\<forall>x \<in> v1 - set (iterate l1). (x, n) \<in> ?E\<^sup>*"
      using P1(1,2) "3.prems"(6) by auto
    from "3.IH"(2) [OF False call [symmetric] rest n1 n2 s1 P1(4) g1 ds "3.prems"(8)]
    obtain P2 where P2: "iterate list' = P2 @ iterate l1" "visited' = v1 \<union> set P2"
      "set P2 \<inter> v1 = {}" "topo ?E (iterate list')" "set P2 \<subseteq> ?E\<^sup>+ `` {n}"
      "set ds \<subseteq> set (iterate list')"
      by auto
    let ?P = "P2 @ d # P1"
    have "iterate list' = ?P @ ?L" by (simp add: P2(1) P1(1))
    moreover have "visited' = visited \<union> set ?P" by (auto simp: P2(2) P1(2))
    moreover have "set ?P \<inter> visited = {}"
      using P2(3) P1(2,3) False by auto
    moreover have "set ?P \<subseteq> ?E\<^sup>+ `` {n}"
    proof -
      have "d \<in> ?E\<^sup>+ `` {n}" using nd by auto
      moreover have "set P1 \<subseteq> ?E\<^sup>+ `` {n}"
        using P1(5) nd by (auto intro: trancl_into_trancl2)
      ultimately show ?thesis using P2(5) by auto
    qed
    moreover have "set (d # ds) \<subseteq> set (iterate list')"
      using P2(1,6) P1(1) by auto
    ultimately show ?thesis using P2(4) by blast
  qed
qed


lemma getTopologicalSort_loop_topo:
  assumes "acyclic (edges g)"
  shows "getTopologicalSort_loop g ns visited list = (visited', list') \<Longrightarrow>
         set (iterate list) = visited \<Longrightarrow> topo (edges g) (iterate list) \<Longrightarrow>
         set (iterate list') = visited' \<and> topo (edges g) (iterate list')
         \<and> set ns \<subseteq> visited' \<and> visited \<subseteq> visited'
         \<and> visited' \<subseteq> visited \<union> (edges g)\<^sup>* `` set ns"
proof (induction ns arbitrary: visited list)
  case Nil
  then show ?case by simp
next
  case (Cons node nodes)
  show ?case
  proof (cases "node \<in> visited")
    case True
    with Cons.prems(1) have "getTopologicalSort_loop g nodes visited list = (visited', list')"
      by simp
    from Cons.IH [OF this Cons.prems(2,3)] True show ?thesis by auto
  next
    case False
    obtain v1 l1 where call: "getTopologicalDependents g node visited list = (v1, l1)"
      by (cases "getTopologicalDependents g node visited list")
    with False Cons.prems(1) have rest: "getTopologicalSort_loop g nodes v1 l1 = (visited', list')"
      by simp
    have "\<forall>x \<in> visited - set (iterate list). (x, node) \<in> (edges g)\<^sup>*"
      using Cons.prems(2) by simp
    from topological_dfs(1) [OF assms call False _ Cons.prems(3) this] Cons.prems(2)
    obtain P where P: "iterate l1 = node # P @ iterate list" "v1 = visited \<union> set (node # P)"
      "topo (edges g) (iterate l1)" "set P \<subseteq> (edges g)\<^sup>+ `` {node}"
      by auto
    have "set (iterate l1) = v1" using P(1,2) Cons.prems(2) by auto
    from Cons.IH [OF rest this P(3)] have
      r: "set (iterate list') = visited'" "topo (edges g) (iterate list')"
        "set nodes \<subseteq> visited'" "v1 \<subseteq> visited'"
        "visited' \<subseteq> v1 \<union> (edges g)\<^sup>* `` set nodes"
      by simp_all
    have "set (node # nodes) \<subseteq> visited'" using r(3,4) P(2) by auto
    moreover have "visited \<subseteq> visited'" using r(4) P(2) by auto
    moreover have "visited' \<subseteq> visited \<union> (edges g)\<^sup>* `` set (node # nodes)"
    proof
      fix x assume "x \<in> visited'"
      with r(5) have "x \<in> v1 \<or> x \<in> (edges g)\<^sup>* `` set nodes" by auto
      then show "x \<in> visited \<union> (edges g)\<^sup>* `` set (node # nodes)"
      proof
        assume "x \<in> v1"
        with P(2,4) have "x \<in> visited \<or> x = node \<or> x \<in> (edges g)\<^sup>+ `` {node}" by auto
        then show ?thesis by (auto intro: trancl_into_rtrancl)
      next
        assume "x \<in> (edges g)\<^sup>* `` set nodes"
        then show ?thesis by auto
      qed
    qed
    ultimately show ?thesis using r(1,2) by simp
  qed
qed

lemma reach_nodes: "(edges g)\<^sup>* `` nodes g = nodes g \<union> Range (edges g)"
proof -
  have "(u, v) \<in> (edges g)\<^sup>* \<Longrightarrow> u \<in> nodes g \<Longrightarrow> v \<in> nodes g \<union> Range (edges g)" for u v
    by (induction rule: rtrancl_induct) auto
  moreover have "v \<in> (edges g)\<^sup>* `` nodes g" if "v \<in> Range (edges g)" for v
  proof -
    from that obtain u where "(u, v) \<in> edges g" by auto
    moreover from this have "u \<in> nodes g" by (auto simp: nodes_iff dest: edges_source)
    ultimately show ?thesis by auto
  qed
  ultimately show ?thesis by blast
qed

text \<open>
  C4. On a graph whose relation has no cycle, \<open>getTopologicalSort()\<close> returns a list in
  which no item occurs twice, which contains every node of the graph, and in which, for
  every edge \<open>from \<rightarrow> to\<close> of the graph, \<open>from\<close> comes before \<open>to\<close>, whatever the components of
  the graph are. The items of the list are the nodes and the dependents that the sets of
  the nodes hold.
\<close>

theorem C4_topological_sort:
  assumes "acyclic (edges g)"
  shows "distinct (iterate (getTopologicalSort g))
       \<and> nodes g \<subseteq> set (iterate (getTopologicalSort g))
       \<and> (\<forall>(u, v) \<in> edges g. before (iterate (getTopologicalSort g)) u v)
       \<and> set (iterate (getTopologicalSort g)) = nodes g \<union> Range (edges g)"
proof -
  obtain v' l' where
    loop: "getTopologicalSort_loop g (getNodes g) {} LinkedList_new = (v', l')"
    by (cases "getTopologicalSort_loop g (getNodes g) {} LinkedList_new")
  then have res: "getTopologicalSort g = l'" by (simp add: getTopologicalSort_def)
  from getTopologicalSort_loop_topo [OF assms loop] have
    r: "set (iterate l') = v'" "topo (edges g) (iterate l')" "nodes g \<subseteq> v'"
      "v' \<subseteq> (edges g)\<^sup>* `` nodes g"
    by (simp_all add: nodes_def)
  have n: "nodes g \<subseteq> set (iterate l')" using r(1,3) by simp
  have b: "before (iterate l') u v" if "(u, v) \<in> edges g" for u v
  proof -
    from that have "u \<in> nodes g" by (auto simp: nodes_iff dest: edges_source)
    with n have "u \<in> set (iterate l')" by auto
    from topo_before_edge [OF r(2) this that] show ?thesis .
  qed
  have "Range (edges g) \<subseteq> set (iterate l')"
    using b by (auto dest: before_set)
  with n r(1,4) have "set (iterate l') = nodes g \<union> Range (edges g)"
    by (auto simp: reach_nodes)
  with n b topo_distinct [OF r(2)] show ?thesis
    unfolding res by blast
qed

lemma acyclic_empty_rel: "acyclic {}"
  by (simp add: acyclic_def)

lemma edges_run2:
  "edges (run eq DependencyGraph_new [AddDependency a b, AddDependency c d]) = {(a, b), (c, d)}"
  by (auto simp: run_def)

theorem C4_topological_sort_witness:
  "acyclic (edges (run (=) DependencyGraph_new [AddDependency ''a'' ''b'', AddDependency ''a'' ''c'']))
   \<and> iterate (getTopologicalSort
        (run (=) DependencyGraph_new [AddDependency ''a'' ''b'', AddDependency ''a'' ''c'']))
      = [''a'', ''c'', ''b'']
   \<and> before (iterate (getTopologicalSort
        (run (=) DependencyGraph_new [AddDependency ''a'' ''b'', AddDependency ''a'' ''c''])))
        ''a'' ''b''"
proof -
  let ?g = "run (=) DependencyGraph_new [AddDependency ''a'' ''b'', AddDependency ''a'' ''c'']"
  have h: "acyclic (edges ?g)"
    by (simp add: edges_run2 acyclic_insert rtrancl_insert acyclic_empty_rel)
  have g: "?g = \<lparr>relationships = [(''a'', [''b'', ''c'']), (''b'', []), (''c'', [])], priv_size = 3\<rparr>"
    by (simp add: run_def eval_graph eval_traverse)
  have "iterate (getTopologicalSort ?g) = [''a'', ''c'', ''b'']"
    unfolding g
    by (simp add: getTopologicalSort_def getNodes_def getTopologicalDependents.simps
        getTopologicalDependents_loop.simps getDependents_shallow_def)
  moreover have "(''a'', ''b'') \<in> edges ?g" by (simp add: edges_run2)
  ultimately show ?thesis
    using h C4_topological_sort [OF h] by blast
qed

text \<open>
  C5. On a graph whose relation has no cycle, \<open>getDependents(x)\<close> with \<open>shallow = false\<close>
  yields every node that \<open>x\<close> reaches in one or more steps, each once, and not \<open>x\<close>; a node
  that has a path to another one comes before it.
\<close>

theorem C5_deep_dependents:
  assumes "acyclic (edges g)" and "contains g x"
  shows "distinct (getDependents g x False)
       \<and> set (getDependents g x False) = (edges g)\<^sup>+ `` {x}
       \<and> x \<notin> set (getDependents g x False)
       \<and> (\<forall>u \<in> set (getDependents g x False). \<forall>v \<in> set (getDependents g x False).
            (u, v) \<in> (edges g)\<^sup>+ \<longrightarrow> before (getDependents g x False) u v)"
proof -
  obtain v' l' where call: "getTopologicalDependents g x {} LinkedList_new = (v', l')"
    by (cases "getTopologicalDependents g x {} LinkedList_new")
  from topological_dfs(1) [OF assms(1) call]
  obtain P where P: "iterate l' = x # P" "topo (edges g) (x # P)"
    "set P \<subseteq> (edges g)\<^sup>+ `` {x}"
    by auto
  have res: "getDependents g x False = P"
    using assms(2) by (simp add: getDependents_def contains_def call iterate_remove P(1))
  have t: "topo (edges g) P" and nx: "x \<notin> set P" using P(2) by simp_all
  have "(edges g)\<^sup>+ `` {x} \<subseteq> set P"
  proof
    fix v assume "v \<in> (edges g)\<^sup>+ `` {x}"
    then have "(x, v) \<in> (edges g)\<^sup>+" by simp
    from topo_before [OF P(2) _ this] have "before (x # P) x v" by simp
    then have "v \<in> set (x # P)" by (auto dest: before_set)
    moreover have "v \<noteq> x"
      using \<open>(x, v) \<in> (edges g)\<^sup>+\<close> assms(1) by (auto simp: acyclic_def)
    ultimately show "v \<in> set P" by simp
  qed
  with P(3) have "set P = (edges g)\<^sup>+ `` {x}" by blast
  moreover have "before P u v" if "u \<in> set P" and "(u, v) \<in> (edges g)\<^sup>+" for u v
    using topo_before [OF t that] .
  ultimately show ?thesis
    unfolding res using topo_distinct [OF t] nx by blast
qed

theorem C5_deep_dependents_witness:
  "acyclic (edges (run (=) DependencyGraph_new [AddDependency ''a'' ''b'', AddDependency ''b'' ''c'']))
   \<and> contains (run (=) DependencyGraph_new [AddDependency ''a'' ''b'', AddDependency ''b'' ''c'']) ''a''
   \<and> getDependents (run (=) DependencyGraph_new [AddDependency ''a'' ''b'', AddDependency ''b'' ''c''])
        ''a'' False = [''b'', ''c'']
   \<and> set (getDependents (run (=) DependencyGraph_new [AddDependency ''a'' ''b'', AddDependency ''b'' ''c''])
        ''a'' False)
      = (edges (run (=) DependencyGraph_new [AddDependency ''a'' ''b'', AddDependency ''b'' ''c'']))\<^sup>+
          `` {''a''}"
proof -
  let ?g = "run (=) DependencyGraph_new [AddDependency ''a'' ''b'', AddDependency ''b'' ''c'']"
  have h: "acyclic (edges ?g)"
    by (simp add: edges_run2 acyclic_insert rtrancl_insert acyclic_empty_rel)
  have c: "contains ?g ''a''" by (simp add: run_def)
  have g: "?g = \<lparr>relationships = [(''a'', [''b'']), (''b'', [''c'']), (''c'', [])], priv_size = 3\<rparr>"
    by (simp add: run_def eval_graph eval_traverse)
  have "getDependents ?g ''a'' False = [''b'', ''c'']"
    unfolding g
    by (simp add: getDependents_def getTopologicalDependents.simps iterate_remove
        getTopologicalDependents_loop.simps getDependents_shallow_def)
  then show ?thesis
    using h c C5_deep_dependents [OF h c] by simp
qed

section \<open>Reading the serialised form\<close>

lemma occurs_Nil [simp]: "occurs pat [] \<longleftrightarrow> pat = []"
  by (auto simp: occurs_def)

lemma occurs_Cons: "occurs pat (c # s) \<longleftrightarrow> prefix pat (c # s) \<or> occurs pat s"
proof
  assume "occurs pat (c # s)"
  then obtain pre post where eq: "c # s = pre @ pat @ post" by (auto simp: occurs_def)
  show "prefix pat (c # s) \<or> occurs pat s"
  proof (cases pre)
    case Nil
    with eq show ?thesis by (auto simp: prefix_def)
  next
    case (Cons a pre')
    with eq have "s = pre' @ pat @ post" by simp
    then show ?thesis unfolding occurs_def by blast
  qed
next
  assume "prefix pat (c # s) \<or> occurs pat s"
  then show "occurs pat (c # s)"
  proof
    assume "prefix pat (c # s)"
    then obtain zs where "c # s = [] @ pat @ zs" by (auto simp: prefix_def)
    then show ?thesis unfolding occurs_def by blast
  next
    assume "occurs pat s"
    then obtain pre post where "s = pre @ pat @ post" by (auto simp: occurs_def)
    then have "c # s = (c # pre) @ pat @ post" by simp
    then show ?thesis unfolding occurs_def by blast
  qed
qed

lemma indexOf_append:
  "indexOf (pre @ s) pat (int (length pre)) = indexOf_from pat s (length pre)"
  by (simp add: indexOf_def)

lemma indexOf_from_skip:
  "\<forall>i < length a. \<not> prefix pat (drop i (a @ b)) \<Longrightarrow>
   indexOf_from pat (a @ b) k = indexOf_from pat b (k + length a)"
proof (induction a arbitrary: k)
  case Nil
  show ?case by simp
next
  case (Cons c a)
  from Cons.prems have "\<not> prefix pat (drop 0 ((c # a) @ b))" by blast
  then have "\<not> prefix pat (c # a @ b)" by simp
  moreover have "\<forall>i < length a. \<not> prefix pat (drop i (a @ b))"
  proof (intro allI impI)
    fix i assume "i < length a"
    then have "Suc i < length (c # a)" by simp
    with Cons.prems have "\<not> prefix pat (drop (Suc i) ((c # a) @ b))" by blast
    then show "\<not> prefix pat (drop i (a @ b))" by simp
  qed
  ultimately show ?case using Cons.IH [of "Suc k"] by simp
qed

lemma indexOf_from_hit: "indexOf_from pat (pat @ rest) k = int k"
proof (cases "pat @ rest")
  case Nil
  then show ?thesis by simp
next
  case (Cons c cs)
  have "prefix pat (pat @ rest)" by simp
  then have "prefix pat (c # cs)" by (simp only: Cons)
  then show ?thesis by (simp add: Cons)
qed

lemma arrow_not_within:
  assumes "\<not> occurs ''->'' u" and "i < length u"
  shows "\<not> prefix ''->'' (drop i (u @ ''->'' @ rest))"
proof
  assume p: "prefix ''->'' (drop i (u @ ''->'' @ rest))"
  from assms(2) obtain c w where d: "drop i u = c # w"
    by (cases "drop i u") auto
  from assms(2) have eq: "drop i (u @ ''->'' @ rest) = c # (w @ ''->'' @ rest)"
    by (simp add: d)
  have c: "c = CHR ''-''" and w: "prefix ''>'' (w @ ''->'' @ rest)"
    using p unfolding eq Cons_prefix_Cons by blast+
  from w obtain w' where "w = CHR ''>'' # w'"
    by (cases w) auto
  with c d have "drop i u = ''->'' @ w'" by simp
  then have "u = take i u @ ''->'' @ w'"
    by (metis append_take_drop_id)
  then have "occurs ''->'' u" unfolding occurs_def by blast
  with assms(1) show False by simp
qed

lemma newline_not_within:
  assumes "newline \<notin> set u" and "i < length u"
  shows "\<not> prefix [newline] (drop i (u @ rest))"
proof
  assume p: "prefix [newline] (drop i (u @ rest))"
  from assms(2) obtain c w where d: "drop i u = c # w"
    by (cases "drop i u") auto
  then have "c \<in> set u" by (metis in_set_dropD list.set_intros(1))
  moreover from assms(2) p d have "c = newline" by simp
  ultimately show False using assms(1) by simp
qed

lemma substring_mid:
  "substring (a @ m @ b) (int (length a)) (int (length a) + int (length m)) = m"
  by (simp add: substring_def Let_def)

section \<open>The round trip through the serialised form\<close>

lemma foldl_append_concat: "foldl (\<lambda>r x. r @ f x) acc xs = acc @ concat (map f xs)"
  by (induction xs arbitrary: acc) simp_all

lemma foldl_nested_concat:
  "foldl (\<lambda>r x. foldl (\<lambda>r y. r @ f x y) r (h x)) acc xs
     = acc @ concat (map (\<lambda>x. concat (map (f x) (h x))) xs)"
  by (induction xs arbitrary: acc) (simp_all add: foldl_append_concat)

lemma concat_concat_map:
  "concat (concat (map f xs)) = concat (map (\<lambda>x. concat (f x)) xs)"
  by (induction xs) simp_all

lemma toString_lines: "toString id g = concat (map line (edge_list g))"
proof -
  have "toString id g
      = concat (map (\<lambda>u. concat (map (\<lambda>v. u @ ''->'' @ v @ [newline]) (getDependents g u True)))
          (getNodes g))"
    unfolding toString_def id_apply
    using foldl_nested_concat [of "\<lambda>u v. u @ ''->'' @ v @ [newline]"
        "\<lambda>u. getDependents g u True" "[]" "getNodes g"]
    by simp
  also have "\<dots> = concat (map line (edge_list g))"
    by (simp add: edge_list_def line_def map_concat comp_def concat_concat_map)
  finally show ?thesis .
qed

lemma set_edge_list: "set (edge_list g) = edges g"
proof -
  have "u \<in> set (getNodes g)" if "v \<in> set (getDependents_shallow g u)" for u v
    using that edges_source [of u v g] by (simp add: edges_iff getNodes_def contains_def)
  then show ?thesis
    by (fastforce simp: edge_list_def edges_iff getDependents_True)
qed

text \<open>One round of the loop of \<open>Generate\<close> reads one line.\<close>

lemma Generate_loop_line:
  assumes "\<not> occurs ''->'' u" and "newline \<notin> set v" and "0 < length pre + length u"
  shows "Generate_loop (pre @ line (u, v) @ rest) gr (int (length pre))
           (indexOf (pre @ line (u, v) @ rest) ''->'' (int (length pre)))
         = (case addDependency (=) gr u v of
              (g', Inl e) \<Rightarrow> Some (Inl e)
            | (g', Inr _) \<Rightarrow>
                Generate_loop (pre @ line (u, v) @ rest) g' (int (length (pre @ line (u, v))))
                  (indexOf (pre @ line (u, v) @ rest) ''->'' (int (length (pre @ line (u, v))))))"
proof -
  let ?s = "pre @ line (u, v) @ rest"
  define i where "i = int (length pre) + int (length u)"
  define j where "j = i + 2 + int (length v)"
  have s1: "?s = pre @ u @ ''->'' @ (v @ [newline] @ rest)" by (simp add: line_def)
  have "indexOf_from ''->'' (u @ ''->'' @ (v @ [newline] @ rest)) (length pre)
      = indexOf_from ''->'' (''->'' @ (v @ [newline] @ rest)) (length pre + length u)"
    by (rule indexOf_from_skip) (use assms(1) arrow_not_within in blast)
  then have index: "indexOf ?s ''->'' (int (length pre)) = i"
    unfolding s1 indexOf_append i_def by (simp only: indexOf_from_hit of_nat_add)
  have s2: "?s = (pre @ u) @ (''->'' @ v) @ [newline] @ rest" by (simp add: line_def)
  have nl: "newline \<notin> set (''->'' @ v)" using assms(2) by (simp add: newline_def)
  have "indexOf_from [newline] ((''->'' @ v) @ [newline] @ rest) (length (pre @ u))
      = indexOf_from [newline] ([newline] @ rest) (length (pre @ u) + length (''->'' @ v))"
    by (rule indexOf_from_skip) (use nl newline_not_within in blast)
  then have "indexOf ?s [newline] (int (length (pre @ u)))
      = int (length (pre @ u) + length (''->'' @ v))"
    unfolding s2 indexOf_append by (simp only: indexOf_from_hit)
  moreover have "int (length (pre @ u)) = i" by (simp add: i_def)
  moreover have "int (length (pre @ u) + length (''->'' @ v)) = j" by (simp add: i_def j_def)
  ultimately have index1: "indexOf ?s [newline] i = j" by simp
  have "substring (pre @ u @ (''->'' @ v @ [newline] @ rest)) (int (length pre))
      (int (length pre) + int (length u)) = u"
    by (rule substring_mid)
  then have "from": "substring ?s (int (length pre)) i = u"
    by (simp add: line_def i_def)
  have t0: "substring ((pre @ u @ ''->'') @ v @ ([newline] @ rest)) (int (length (pre @ u @ ''->'')))
      (int (length (pre @ u @ ''->'')) + int (length v)) = v"
    by (rule substring_mid)
  have e1: "(pre @ u @ ''->'') @ v @ ([newline] @ rest) = ?s" by (simp add: line_def)
  have e2: "int (length (pre @ u @ ''->'')) = i + 1 + 1" by (simp add: i_def)
  have e3: "i + 1 + 1 + int (length v) = j" by (simp add: j_def)
  have to: "substring ?s (i + 1 + 1) j = v"
    using t0 unfolding e1 e2 e3 .
  have len: "int (length (pre @ line (u, v))) = j + 1"
    by (simp add: line_def i_def j_def)
  have "0 < int (length pre + length u)" using assms(3) by (simp only: of_nat_0_less_iff)
  then have pos: "i > 0" by (simp only: i_def of_nat_add)
  show ?thesis
    unfolding len index
    by (subst Generate_loop.simps) (simp only: index1 "from" to pos Let_def if_True)
qed

lemma Generate_loop_lines:
  assumes "\<forall>(u, v) \<in> set es. \<not> occurs ''->'' u \<and> newline \<notin> set v"
    and "pre = [] \<Longrightarrow> es \<noteq> [] \<Longrightarrow> fst (hd es) \<noteq> []"
  shows "Generate_loop (pre @ concat (map line es)) gr (int (length pre))
           (indexOf (pre @ concat (map line es)) ''->'' (int (length pre)))
         = Some (add_all gr es)"
  using assms
proof (induction es arbitrary: pre gr)
  case Nil
  have "indexOf (pre @ []) ''->'' (int (length pre)) = - 1"
    unfolding indexOf_append by simp
  then show ?case by (simp add: Generate_loop_stop)
next
  case (Cons e es)
  obtain u v where e: "e = (u, v)" by (cases e)
  let ?rest = "concat (map line es)"
  let ?pre' = "pre @ line (u, v)"
  have str: "pre @ concat (map line (e # es)) = pre @ line (u, v) @ ?rest"
    and str': "?pre' @ ?rest = pre @ line (u, v) @ ?rest"
    by (simp_all add: e)
  have u: "\<not> occurs ''->'' u" and v: "newline \<notin> set v"
    using Cons.prems(1) by (simp_all add: e)
  have pos: "0 < length pre + length u"
    using Cons.prems(2) by (cases pre) (simp_all add: e)
  have rest: "\<forall>(u, v) \<in> set es. \<not> occurs ''->'' u \<and> newline \<notin> set v"
    using Cons.prems(1) by simp
  have ih: "Generate_loop (?pre' @ ?rest) g' (int (length ?pre'))
           (indexOf (?pre' @ ?rest) ''->'' (int (length ?pre')))
         = Some (add_all g' es)" for g'
    by (rule Cons.IH [OF rest]) (simp add: line_def)
  have next_round: "Generate_loop (pre @ line (u, v) @ ?rest) g' (int (length ?pre'))
           (indexOf (pre @ line (u, v) @ ?rest) ''->'' (int (length ?pre')))
         = Some (add_all g' es)" for g'
    using ih [of g'] unfolding str' .
  show ?case
    unfolding str Generate_loop_line [OF u v pos] next_round
    by (simp add: e split: prod.splits sum.splits)
qed

lemma add_all_acyclic:
  "acyclic (edges gr \<union> set es) \<Longrightarrow>
   \<exists>g'. add_all gr es = Inr g' \<and> edges g' = edges gr \<union> set es
        \<and> nodes g' = nodes gr \<union> fst ` set es \<union> snd ` set es"
proof (induction es arbitrary: gr)
  case Nil
  then show ?case by simp
next
  case (Cons e es)
  obtain u v where e: "e = (u, v)" by (cases e)
  have sub: "insert (u, v) (edges gr) \<subseteq> edges gr \<union> set (e # es)" by (auto simp: e)
  have "(u, u) \<notin> (insert (u, v) (edges gr))\<^sup>+"
  proof
    assume "(u, u) \<in> (insert (u, v) (edges gr))\<^sup>+"
    with trancl_mono [OF this sub] Cons.prems show False by (simp add: acyclic_def)
  qed
  then have ok: "snd (addDependency (=) gr u v) = Inr ()" by (simp add: snd_addDependency_eq)
  then obtain g1 where call: "addDependency (=) gr u v = (g1, Inr ())"
    by (cases "addDependency (=) gr u v") simp
  have g1: "edges g1 = insert (u, v) (edges gr)" "nodes g1 = nodes gr \<union> {u, v}"
    using edges_addDependency [of "(=)" gr u v] nodes_addDependency [of "(=)" gr u v]
    by (simp_all add: call)
  have e1: "edges g1 \<union> set es = edges gr \<union> set (e # es)" by (auto simp: e g1(1))
  with Cons.prems have "acyclic (edges g1 \<union> set es)" by simp
  from Cons.IH [OF this] obtain g' where g': "add_all g1 es = Inr g'"
    "edges g' = edges g1 \<union> set es" "nodes g' = nodes g1 \<union> fst ` set es \<union> snd ` set es"
    by blast
  have "add_all gr (e # es) = Inr g'"
    using g'(1) by (simp add: e call)
  moreover have "edges g' = edges gr \<union> set (e # es)" using g'(2) e1 by simp
  moreover have "nodes g' = nodes gr \<union> fst ` set (e # es) \<union> snd ` set (e # es)"
    using g'(3) by (auto simp: e g1(2))
  ultimately show ?case by blast
qed

lemma Generate_toString:
  assumes "\<forall>x \<in> nodes g \<union> Range (edges g). valid_id x"
    and "\<not> prefix ''->'' (toString id g)"
  shows "Generate (toString id g) = Some (add_all DependencyGraph_new (edge_list g))"
proof -
  have ids: "\<forall>(u, v) \<in> set (edge_list g). \<not> occurs ''->'' u \<and> newline \<notin> set v"
  proof (clarify, unfold set_edge_list)
    fix u v assume uv: "(u, v) \<in> edges g"
    then have "u \<in> nodes g" by (auto simp: nodes_iff dest: edges_source)
    with uv assms(1) have "valid_id u" and "valid_id v" by auto
    then show "\<not> occurs ''->'' u \<and> newline \<notin> set v" by (simp add: valid_id_def)
  qed
  have first: "fst (hd (edge_list g)) \<noteq> []" if "edge_list g \<noteq> []"
  proof
    assume empty: "fst (hd (edge_list g)) = []"
    from that obtain e es where es: "edge_list g = e # es" by (cases "edge_list g") auto
    with empty have "toString id g = ''->'' @ snd e @ [newline] @ concat (map line es)"
      by (simp add: toString_lines line_def)
    with assms(2) show False by simp
  qed
  have "Generate_loop ([] @ concat (map line (edge_list g))) DependencyGraph_new
           (int (length ([] :: string)))
           (indexOf ([] @ concat (map line (edge_list g))) ''->'' (int (length ([] :: string))))
         = Some (add_all DependencyGraph_new (edge_list g))"
    by (rule Generate_loop_lines [OF ids]) (rule first)
  then show ?thesis by (simp add: Generate_def toString_lines)
qed

lemma valid_id_letter: "valid_id [CHR ''a'']" "valid_id [CHR ''b'']" "valid_id [CHR ''c'']"
  by (simp_all add: valid_id_def occurs_Cons newline_def)

text \<open>
  C6, as the code has it. For a graph over strings whose relation has no cycle, whose
  identifiers contain neither the arrow nor a newline, and whose serialised form does not
  begin with the arrow (the first line has a from-identifier that is not empty),
  \<open>Generate(G.toString())\<close> returns a graph with the same direct-dependent relationships
  as \<open>G\<close>. Its nodes are the endpoints of these relationships: the nodes of \<open>G\<close> with no
  incident edge are absent, and a dependent that is not a node of \<open>G\<close> (an item that was
  removed and is still in the set of another node) is a node of the result. When every
  dependent is a node of \<open>G\<close>, the nodes of the result are those of \<open>G\<close> without the
  isolated ones.
\<close>

theorem C6_round_trip:
  assumes "acyclic (edges g)"
    and "\<forall>x \<in> nodes g \<union> Range (edges g). valid_id x"
    and "\<not> prefix ''->'' (toString id g)"
  shows "\<exists>g'. Generate (toString id g) = Some (Inr g')
           \<and> edges g' = edges g
           \<and> nodes g' = Field (edges g)
           \<and> (Range (edges g) \<subseteq> nodes g \<longrightarrow>
                nodes g' = nodes g - {x. x \<notin> Field (edges g)})"
proof -
  have "acyclic (edges (DependencyGraph_new :: string DependencyGraph) \<union> set (edge_list g))"
    using assms(1) by (simp add: set_edge_list)
  from add_all_acyclic [OF this] obtain g' where g':
    "add_all DependencyGraph_new (edge_list g) = Inr g'"
    "edges g' = edges g" "nodes g' = fst ` edges g \<union> snd ` edges g"
    by (auto simp: set_edge_list)
  have f: "nodes g' = Field (edges g)"
    unfolding g'(3) Field_def by (simp add: Domain_fst Range_snd)
  have "Domain (edges g) \<subseteq> nodes g"
    by (auto simp: nodes_iff dest: edges_source)
  then have "Range (edges g) \<subseteq> nodes g \<Longrightarrow> nodes g' = nodes g - {x. x \<notin> Field (edges g)}"
    unfolding f Field_def by auto
  with Generate_toString [OF assms(2,3)] g'(1,2) f show ?thesis by simp
qed

theorem C6_round_trip_witness:
  "acyclic (edges (run (=) DependencyGraph_new [AddDependency ''a'' ''b'', AddDependency ''a'' ''c'']))
   \<and> toString id (run (=) DependencyGraph_new [AddDependency ''a'' ''b'', AddDependency ''a'' ''c''])
       = ''a->b'' @ [newline] @ ''a->c'' @ [newline]
   \<and> (\<exists>g'. Generate (toString id
          (run (=) DependencyGraph_new [AddDependency ''a'' ''b'', AddDependency ''a'' ''c'']))
        = Some (Inr g')
      \<and> edges g' = {(''a'', ''b''), (''a'', ''c'')}
      \<and> nodes g' = {''a'', ''b'', ''c''})"
proof -
  let ?g = "run (=) DependencyGraph_new [AddDependency ''a'' ''b'', AddDependency ''a'' ''c'']"
  have e: "edges ?g = {(''a'', ''b''), (''a'', ''c'')}" by (simp add: edges_run2)
  have n: "nodes ?g = {''a'', ''b'', ''c''}"
    by (auto simp: run_def nodes_addDependency)
  have h1: "acyclic (edges ?g)"
    by (simp add: e acyclic_insert rtrancl_insert acyclic_empty_rel)
  have h2: "\<forall>x \<in> nodes ?g \<union> Range (edges ?g). valid_id x"
    unfolding e n by (simp add: valid_id_letter)
  have g: "?g = \<lparr>relationships = [(''a'', [''b'', ''c'']), (''b'', []), (''c'', [])], priv_size = 3\<rparr>"
    by (simp add: run_def eval_graph eval_traverse)
  have s: "toString id ?g = ''a->b'' @ [newline] @ ''a->c'' @ [newline]"
    unfolding g by (simp add: toString_def getNodes_def getDependents_def)
  have h3: "\<not> prefix ''->'' (toString id ?g)"
    unfolding s by simp
  have f: "Field (edges ?g) = {''a'', ''b'', ''c''}"
    unfolding e by (auto simp: Field_def)
  from C6_round_trip [OF h1 h2 h3] obtain g' where
    c: "Generate (toString id ?g) = Some (Inr g')
           \<and> edges g' = edges ?g
           \<and> nodes g' = Field (edges ?g)
           \<and> (Range (edges ?g) \<subseteq> nodes ?g \<longrightarrow>
                nodes g' = nodes ?g - {x. x \<notin> Field (edges ?g)})" ..
  note c1 = c [THEN conjunct1]
  note c2 = c [THEN conjunct2, THEN conjunct1]
  note c3 = c [THEN conjunct2, THEN conjunct2, THEN conjunct1]
  have c2': "edges g' = {(''a'', ''b''), (''a'', ''c'')}" using c2 unfolding e .
  have c3': "nodes g' = {''a'', ''b'', ''c''}" using c3 unfolding f .
  have "Generate (toString id ?g) = Some (Inr g') \<and> edges g' = {(''a'', ''b''), (''a'', ''c'')}
      \<and> nodes g' = {''a'', ''b'', ''c''}"
    by (rule conjI [OF c1 conjI [OF c2' c3']])
  then have "\<exists>g'. Generate (toString id ?g) = Some (Inr g')
      \<and> edges g' = {(''a'', ''b''), (''a'', ''c'')} \<and> nodes g' = {''a'', ''b'', ''c''}"
    by (rule exI [where x = g'])
  then show ?thesis by (rule conjI [OF h1 conjI [OF s]])
qed

text \<open>
  The claim as it is written fails on the graph that \<open>addDependency(a, b)\<close> and \<open>remove(b)\<close>
  leave: its only node is \<open>a\<close>, whose set still holds \<open>b\<close>. Its serialised form is the line
  of the edge from \<open>a\<close> to \<open>b\<close>, and the graph read back contains \<open>b\<close>, which is neither a
  node of the first graph nor an isolated one.
\<close>

theorem C6_dangling_counterexample:
  "run (=) DependencyGraph_new [AddDependency ''a'' ''b'', Remove ''b'']
     = \<lparr>relationships = [(''a'', [''b''])], priv_size = 1\<rparr>
   \<and> acyclic (edges \<lparr>relationships = [(''a'', [''b''])], priv_size = 1\<rparr>)
   \<and> valid_id ''a'' \<and> valid_id ''b''
   \<and> toString id \<lparr>relationships = [(''a'', [''b''])], priv_size = 1\<rparr> = ''a->b'' @ [newline]
   \<and> Generate (toString id \<lparr>relationships = [(''a'', [''b''])], priv_size = 1\<rparr>)
       = Some (Inr \<lparr>relationships = [(''a'', [''b'']), (''b'', [])], priv_size = 2\<rparr>)
   \<and> \<not> contains \<lparr>relationships = [(''a'', [''b''])], priv_size = 1\<rparr> ''b''
   \<and> contains \<lparr>relationships = [(''a'', [''b'']), (''b'', [])], priv_size = 2\<rparr> ''b''"
proof -
  let ?g = "\<lparr>relationships = [(''a'', [''b''])], priv_size = 1\<rparr> :: string DependencyGraph"
  have r: "run (=) DependencyGraph_new [AddDependency ''a'' ''b'', Remove ''b''] = ?g"
    by (simp add: run_def eval_graph eval_traverse remove_def)
  have e: "edges ?g = {(''a'', ''b'')}"
    by (auto simp: edges_def getDependents_shallow_def split: if_splits)
  have n: "nodes ?g = {''a''}" by (simp add: nodes_def getNodes_def)
  have a: "acyclic (edges ?g)"
    by (simp add: e acyclic_insert acyclic_empty_rel)
  have s: "toString id ?g = ''a->b'' @ [newline]"
    by (simp add: toString_def getNodes_def getDependents_def)
  have ids: "\<forall>x \<in> nodes ?g \<union> Range (edges ?g). valid_id x"
    unfolding e n by (simp add: valid_id_letter)
  have np: "\<not> prefix ''->'' (toString id ?g)" unfolding s by simp
  have el: "edge_list ?g = [(''a'', ''b'')]"
    by (simp add: edge_list_def getNodes_def getDependents_def)
  have "Generate (toString id ?g)
      = Some (Inr \<lparr>relationships = [(''a'', [''b'']), (''b'', [])], priv_size = 2\<rparr>)"
    unfolding Generate_toString [OF ids np] el
    by (simp add: eval_graph eval_traverse)
  with r a s show ?thesis
    by (simp add: valid_id_letter contains_def)
qed

end
